theory Spec2Isabelle
  imports Main "HOL-Library.Word" "HOL-Library.List_Lexorder" "HOL-Library.Multiset"
begin

unbundle bit_operations_syntax

section \<open>Bytes, failures and fixed-size arrays\<close>

text \<open>
  A Go \<^verbatim>\<open>byte\<close> is an 8-bit word and a \<^verbatim>\<open>[]byte\<close> a list of them. Byte lists are
  ordered lexicographically (the order of \<^verbatim>\<open>bytes.Compare\<close> and of Go's string
  comparison). A slice is modelled with capacity equal to its length, so that
  \<^verbatim>\<open>s[:n]\<close> panics exactly when \<open>n\<close> exceeds the length. A slice that the code tests
  against \<^verbatim>\<open>nil\<close> (the entries of \<^verbatim>\<open>Proof.Values\<close>) is a \<open>bytes option\<close>, with
  \<open>None\<close> for \<^verbatim>\<open>nil\<close>.

  A run-time panic is not an error value: it is kept apart from the errors a function
  returns.
\<close>

type_synonym byte = "8 word"
type_synonym bytes = "byte list"

datatype panic = IndexOutOfRange | SliceBoundsOutOfRange | MakeSliceOutOfRange | NilDereference

datatype error = Panic panic | Error string

text \<open>\<^verbatim>\<open>copy(dst[:], src)\<close> into a zero-initialised \<^verbatim>\<open>[n]byte\<close>.\<close>

definition copy_into :: "nat \<Rightarrow> bytes \<Rightarrow> bytes" where
  "copy_into n src = take n src @ replicate (n - length src) 0"

text \<open>\<^verbatim>\<open>len(v)\<close> of a slice that may be \<^verbatim>\<open>nil\<close>.\<close>

definition len_opt :: "bytes option \<Rightarrow> nat" where
  "len_opt v = (case v of None \<Rightarrow> 0 | Some b \<Rightarrow> length b)"

section \<open>Data model of \<^verbatim>\<open>proof_ipa.go\<close>\<close>

text \<open>
  \<^verbatim>\<open>ipa.MultiProof\<close> of go-ipa, with its nested \<^verbatim>\<open>IPA\<close> struct flattened:
  \<^verbatim>\<open>D\<close>, \<^verbatim>\<open>IPA.L\<close>, \<^verbatim>\<open>IPA.R\<close>, \<^verbatim>\<open>IPA.A_scalar\<close>. Points and scalars are type
  parameters: the group and the field are outside this file.
\<close>

record ('pt, 'fr) MultiProof =
  mp_D :: 'pt
  mp_IPA_L :: "'pt list"
  mp_IPA_R :: "'pt list"
  mp_IPA_A_scalar :: 'fr

record IPAProof =
  CL :: "bytes list"
  CR :: "bytes list"
  FinalEvaluation :: bytes

record VerkleProof =
  OtherStems :: "bytes list"
  DepthExtensionPresent :: bytes
  CommitmentsByPath :: "bytes list"
  vp_D :: bytes
  vp_IPAProof :: "IPAProof option"

record ('pt, 'fr) Proof =
  Multipoint :: "('pt, 'fr) MultiProof"
  ExtStatus :: bytes
  Cs :: "'pt list"
  PoaStems :: "bytes list"
  Keys :: "bytes list"
  Values :: "bytes option list"

record SuffixStateDiff =
  Suffix :: byte
  CurrentValue :: "bytes option"

record StemStateDiff =
  Stem :: bytes
  SuffixDiffs :: "SuffixStateDiff list"

type_synonym StateDiff = "StemStateDiff list"

text \<open>
  The encodings of points and scalars that the serializer calls:
  \<^verbatim>\<open>Point.Bytes()\<close>, \<^verbatim>\<open>Point.SetBytes\<close> (whose error the deserializer drops, so the
  model keeps the receiver after the call), \<^verbatim>\<open>Point.SetBytesTrusted\<close>,
  \<^verbatim>\<open>Fr.Bytes()\<close> and \<^verbatim>\<open>Fr.SetBytes\<close>; and, for the older binary format,
  \<^verbatim>\<open>Point.Unmarshal\<close> and \<^verbatim>\<open>MultiProof.Read\<close> (which reads what is left of the
  input and reports no error).
\<close>

record ('pt, 'fr) codec =
  point_Bytes :: "'pt \<Rightarrow> bytes"
  point_SetBytes :: "bytes \<Rightarrow> 'pt"
  point_SetBytesTrusted :: "bytes \<Rightarrow> error + 'pt"
  fr_Bytes :: "'fr \<Rightarrow> bytes"
  fr_SetBytes :: "bytes \<Rightarrow> 'fr"
  point_Unmarshal :: "bytes \<Rightarrow> error + 'pt"
  multiproof_Read :: "bytes \<Rightarrow> ('pt, 'fr) MultiProof"

section \<open>\<^verbatim>\<open>SerializeProof\<close> (lines 324-384)\<close>

text \<open>
  The first statement of the loop body: a new \<^verbatim>\<open>StemStateDiff\<close> is appended when
  \<^verbatim>\<open>stemdiff == nil\<close> (no group yet) or the stem of the current group differs from
  \<^verbatim>\<open>key[:31]\<close>. The pointer \<^verbatim>\<open>stemdiff\<close> always addresses the last element of
  \<^verbatim>\<open>statediff\<close>.
\<close>

definition open_stem :: "StateDiff \<Rightarrow> bytes \<Rightarrow> StateDiff" where
  "open_stem sd key =
     (if sd = [] \<or> Stem (last sd) \<noteq> take 31 key
      then sd @ [\<lparr>Stem = copy_into 31 (take 31 key), SuffixDiffs = []\<rparr>]
      else sd)"

text \<open>\<^verbatim>\<open>stemdiff.SuffixDiffs = append(stemdiff.SuffixDiffs, x)\<close> through the pointer.\<close>

definition append_suffix :: "StateDiff \<Rightarrow> SuffixStateDiff \<Rightarrow> StateDiff" where
  "append_suffix sd x =
     butlast sd @ [(last sd)\<lparr>SuffixDiffs := SuffixDiffs (last sd) @ [x]\<rparr>]"

text \<open>
  The \<^verbatim>\<open>switch valueLen\<close>: no value for length 0, the value itself for length 32,
  and otherwise the value copied into a fresh zeroed \<^verbatim>\<open>[32]byte\<close>; slicing that
  array up to a length above 32 panics. Each execution of the default branch declares
  its own \<^verbatim>\<open>aligned\<close>, so the stored pointers address distinct arrays.
\<close>

definition current_value :: "bytes option \<Rightarrow> error + bytes option" where
  "current_value v =
     (if len_opt v = 0 then Inr None
      else if len_opt v = 32 then Inr v
      else if 32 < len_opt v then Inl (Panic SliceBoundsOutOfRange)
      else Inr (Some (the v @ replicate (32 - len_opt v) 0)))"

fun statediff_loop ::
  "StateDiff \<Rightarrow> bytes list \<Rightarrow> bytes option list \<Rightarrow> error + StateDiff" where
  "statediff_loop sd [] vs = Inr sd"
| "statediff_loop sd (key # keys) vs =
     (if length key < 31 then Inl (Panic SliceBoundsOutOfRange)
      else
        (case vs of
           [] \<Rightarrow> Inl (Panic IndexOutOfRange)
         | v # vs' \<Rightarrow>
             (case current_value v of
                Inl e \<Rightarrow> Inl e
              | Inr cv \<Rightarrow>
                  if length key < 32 then Inl (Panic IndexOutOfRange)
                  else statediff_loop
                         (append_suffix (open_stem sd key)
                            \<lparr>Suffix = key ! 31, CurrentValue = cv\<rparr>)
                         keys vs')))"

definition SerializeProof ::
  "('pt, 'fr) codec \<Rightarrow> ('pt, 'fr) Proof \<Rightarrow> error + (VerkleProof \<times> StateDiff)" where
  "SerializeProof cd proof =
     (let otherstems = map (copy_into 31) (PoaStems proof);
          cbp = map (\<lambda>C. copy_into 32 (point_Bytes cd C)) (Cs proof);
          mp = Multipoint proof
      in
        if length (mp_IPA_L mp) < 8 \<or> length (mp_IPA_R mp) < 8
        then Inl (Panic IndexOutOfRange)
        else
          (let cls = map (\<lambda>i. copy_into 32 (point_Bytes cd (mp_IPA_L mp ! i))) [0..<8];
               crs = map (\<lambda>i. copy_into 32 (point_Bytes cd (mp_IPA_R mp ! i))) [0..<8]
           in
             (case statediff_loop [] (Keys proof) (Values proof) of
                Inl e \<Rightarrow> Inl e
              | Inr statediff \<Rightarrow>
                  Inr (\<lparr>OtherStems = otherstems,
                        DepthExtensionPresent = ExtStatus proof,
                        CommitmentsByPath = cbp,
                        vp_D = point_Bytes cd (mp_D mp),
                        vp_IPAProof = Some \<lparr>CL = cls, CR = crs,
                          FinalEvaluation = fr_Bytes cd (mp_IPA_A_scalar mp)\<rparr>\<rparr>,
                       statediff))))"

section \<open>\<^verbatim>\<open>DeserializeProof\<close> (lines 388-447)\<close>

fun decode_commitments :: "('pt, 'fr) codec \<Rightarrow> bytes list \<Rightarrow> error + 'pt list" where
  "decode_commitments cd [] = Inr []"
| "decode_commitments cd (commitmentBytes # rest) =
     (case point_SetBytesTrusted cd commitmentBytes of
        Inl e \<Rightarrow> Inl e
      | Inr commitment \<Rightarrow>
          (case decode_commitments cd rest of
             Inl e \<Rightarrow> Inl e
           | Inr cs \<Rightarrow> Inr (commitment # cs)))"

text \<open>
  The loop of lines 397-399 stores \<^verbatim>\<open>poaStem[:]\<close>, a slice of the range variable
  \<^verbatim>\<open>poaStem\<close>, an array of 31 bytes. The source is of the language before Go 1.22,
  where a \<^verbatim>\<open>range\<close> loop has one variable for all its iterations: every stored
  slice is a view of that one array, which holds the last stem when the loop ends.
  The commitments are decoded inside the loop, and the keys are slices of an array
  declared in the loop body, so they are not shared.
\<close>

definition poaStems_loop :: "bytes list \<Rightarrow> bytes list" where
  "poaStems_loop otherStems = map (\<lambda>poaStem. last otherStems) otherStems"

text \<open>The nested loops that turn the state diff into keys and values.\<close>

definition statediff_keys :: "StateDiff \<Rightarrow> bytes list" where
  "statediff_keys statediff =
     concat (map (\<lambda>stemdiff.
        map (\<lambda>suffixdiff. copy_into 31 (Stem stemdiff) @ [Suffix suffixdiff])
            (SuffixDiffs stemdiff)) statediff)"

definition statediff_values :: "StateDiff \<Rightarrow> bytes option list" where
  "statediff_values statediff =
     concat (map (\<lambda>stemdiff. map CurrentValue (SuffixDiffs stemdiff)) statediff)"

definition DeserializeProof ::
  "('pt, 'fr) codec \<Rightarrow> VerkleProof \<Rightarrow> StateDiff \<Rightarrow> error + ('pt, 'fr) Proof" where
  "DeserializeProof cd vp statediff =
     (case decode_commitments cd (CommitmentsByPath vp) of
        Inl e \<Rightarrow> Inl e
      | Inr commitments \<Rightarrow>
          (case vp_IPAProof vp of
             None \<Rightarrow> Inl (Panic NilDereference)
           | Some ipp \<Rightarrow>
               Inr \<lparr>Multipoint =
                      \<lparr>mp_D = point_SetBytes cd (vp_D vp),
                       mp_IPA_L = map (point_SetBytes cd) (CL ipp),
                       mp_IPA_R = map (point_SetBytes cd) (CR ipp),
                       mp_IPA_A_scalar = fr_SetBytes cd (FinalEvaluation ipp)\<rparr>,
                    ExtStatus = DepthExtensionPresent vp,
                    Cs = commitments,
                    PoaStems = poaStems_loop (OtherStems vp),
                    Keys = statediff_keys statediff,
                    Values = statediff_values statediff\<rparr>))"

text \<open>
  The value a \<^verbatim>\<open>SuffixStateDiff\<close> carries for a proof value that the switch accepts,
  and the proofs on which \<^verbatim>\<open>SerializeProof\<close> runs to its end.
\<close>

definition padded :: "bytes option \<Rightarrow> bytes option" where
  "padded v = (if len_opt v = 0 then None
               else if len_opt v = 32 then v
               else Some (the v @ replicate (32 - len_opt v) 0))"

definition serializable :: "('pt, 'fr) Proof \<Rightarrow> bool" where
  "serializable proof \<longleftrightarrow>
     8 \<le> length (mp_IPA_L (Multipoint proof)) \<and>
     8 \<le> length (mp_IPA_R (Multipoint proof)) \<and>
     (\<forall>k \<in> set (Keys proof). 32 \<le> length k) \<and>
     length (Keys proof) \<le> length (Values proof) \<and>
     (\<forall>v \<in> set (take (length (Keys proof)) (Values proof)). len_opt v \<le> 32)"


section \<open>The tree module and the opening backend\<close>

text \<open>
  \<^verbatim>\<open>ProofElements\<close> is declared outside the two source files; the builder reads its
  fields \<^verbatim>\<open>Cis\<close>, \<^verbatim>\<open>Zis\<close>, \<^verbatim>\<open>Yis\<close>, \<^verbatim>\<open>Fis\<close> and the map \<^verbatim>\<open>ByPath\<close> from
  paths to commitments. The Go map is an association list without duplicate keys.

  The operations of the tree module and of go-ipa that the code calls are the fields
  of one record, and so are the two extension-status constants that
  \<^verbatim>\<open>TreeFromProof\<close> switches on. \<^verbatim>\<open>CreateMultiProof\<close> takes the label of the
  transcript it is given; the configuration is a process-wide constant.
\<close>

record ('pt, 'fr, 'poly) ProofElements =
  Cis :: "'pt list"
  Zis :: bytes
  Yis :: "'fr list"
  Fis :: "'poly list"
  ByPath :: "(bytes \<times> 'pt) list"

record stemInfo =
  si_depth :: byte
  si_stemType :: byte
  has_c1 :: bool
  has_c2 :: bool
  si_values :: "(byte \<times> bytes) list option"
  si_stem :: "bytes option"

record ('n, 'pt, 'fr, 'poly) externals =
  Commit :: "'n \<Rightarrow> 'n"
  GetProofItems :: "'n \<Rightarrow> bytes list \<Rightarrow> ('pt, 'fr, 'poly) ProofElements \<times> bytes \<times> bytes list"
  CreateMultiProof ::
    "string \<Rightarrow> 'pt list \<Rightarrow> 'poly list \<Rightarrow> bytes \<Rightarrow> error + ('pt, 'fr) MultiProof"
  ComputeCommitment :: "'n \<Rightarrow> 'n"
  GetCommitmentsAlongPath ::
    "'n \<Rightarrow> bytes \<Rightarrow> ('pt, 'fr, 'poly) ProofElements \<times> byte \<times> bytes option"
  Merge ::
    "('pt, 'fr, 'poly) ProofElements \<Rightarrow> ('pt, 'fr, 'poly) ProofElements
       \<Rightarrow> ('pt, 'fr, 'poly) ProofElements"
  Get :: "'n \<Rightarrow> bytes \<Rightarrow> bytes option"
  extStatusAbsentEmpty :: byte
  extStatusAbsentOther :: byte
  NewStatelessWithCommitment :: "'pt \<Rightarrow> 'n"
  insertStem :: "'n \<Rightarrow> bytes \<Rightarrow> stemInfo \<Rightarrow> 'pt list \<Rightarrow> error + ('n \<times> 'pt list)"
  insertValue :: "'n \<Rightarrow> bytes \<Rightarrow> bytes \<Rightarrow> error + 'n"

section \<open>\<^verbatim>\<open>MakeVerkleMultiProof\<close> (lines 258-311)\<close>

text \<open>
  Modelled from the spec: \<^verbatim>\<open>keylist\<close>, the \<^verbatim>\<open>sort.Interface\<close> over \<^verbatim>\<open>[][]byte\<close>
  that \<^verbatim>\<open>sort.Sort(keylist(keys))\<close> uses, is declared outside the source files.
  The spec: keys are sorted ascending, in byte order.
\<close>

definition keylist_sort :: "bytes list \<Rightarrow> bytes list" where
  "keylist_sort keys = sort keys"

text \<open>
  \<^verbatim>\<open>GetCommitmentsForMultiproof\<close> sorts the caller's slice in place, so the model
  returns the slice's new content with the result.
\<close>

definition GetCommitmentsForMultiproof ::
  "('n, 'pt, 'fr, 'poly) externals \<Rightarrow> 'n \<Rightarrow> bytes list
     \<Rightarrow> bytes list \<times> ('pt, 'fr, 'poly) ProofElements \<times> bytes \<times> bytes list" where
  "GetCommitmentsForMultiproof ext root keys =
     (let keys' = keylist_sort keys in (keys', GetProofItems ext root keys'))"

text \<open>
  The commitment vector (lines 291-301). \<^verbatim>\<open>for path := range pe.ByPath\<close> visits the
  keys of the map in an order the Go runtime chooses: \<open>range_order\<close> is that choice, a
  rearrangement of the keys. \<^verbatim>\<open>make\<close> panics on the capacity \<open>-1\<close> of an empty
  map, and \<^verbatim>\<open>cis[i]\<close> panics when there are more paths than \<^verbatim>\<open>len(pe.ByPath)-1\<close>.
  A map has no duplicate keys, so otherwise the loop fills \<^verbatim>\<open>cis\<close> entirely.
\<close>

definition sorted_commitments ::
  "(bytes list \<Rightarrow> bytes list) \<Rightarrow> (bytes \<times> 'pt) list \<Rightarrow> error + 'pt list" where
  "sorted_commitments range_order byPath =
     (if length byPath = 0 then Inl (Panic MakeSliceOutOfRange)
      else
        (let paths = sort (filter (\<lambda>path. 0 < length path) (range_order (map fst byPath)))
         in if length byPath - 1 < length paths then Inl (Panic IndexOutOfRange)
            else Inr (map (\<lambda>path. the (map_of byPath path)) paths)))"

text \<open>
  The result is the content of the caller's key slice and the tree after the call,
  and what the function returns: the error, or the proof with \<^verbatim>\<open>pe.Cis\<close>,
  \<^verbatim>\<open>pe.Zis\<close> and \<^verbatim>\<open>pe.Yis\<close>. \<^verbatim>\<open>keyvals[string(k)]\<close> is \<^verbatim>\<open>nil\<close> for a key the
  map does not hold.
\<close>

definition MakeVerkleMultiProof ::
  "('n, 'pt, 'fr, 'poly) externals \<Rightarrow> (bytes list \<Rightarrow> bytes list) \<Rightarrow> 'n \<Rightarrow> bytes list
     \<Rightarrow> (bytes \<Rightarrow> bytes option)
     \<Rightarrow> bytes list \<times> 'n \<times> (error + (('pt, 'fr) Proof \<times> 'pt list \<times> bytes \<times> 'fr list))" where
  "MakeVerkleMultiProof ext range_order root keys keyvals =
     (if length keys = 0 then (keys, root, Inl (Error ''no key provided for proof''))
      else
        (let root' = Commit ext root;
             (keys', pe, es, poas) = GetCommitmentsForMultiproof ext root' keys;
             vals = map keyvals keys'
         in (keys', root',
             (case CreateMultiProof ext ''vt'' (Cis pe) (Fis pe) (Zis pe) of
                Inl e \<Rightarrow> Inl e
              | Inr mpArg \<Rightarrow>
                  (case sorted_commitments range_order (ByPath pe) of
                     Inl e \<Rightarrow> Inl e
                   | Inr cis \<Rightarrow>
                       Inr (\<lparr>Multipoint = mpArg, ExtStatus = es, Cs = cis,
                             PoaStems = poas, Keys = keys', Values = vals\<rparr>,
                            Cis pe, Zis pe, Yis pe))))))"

text \<open>The rearrangements of a map's keys that a \<^verbatim>\<open>range\<close> loop can produce.\<close>

definition is_range_order :: "(bytes list \<Rightarrow> bytes list) \<Rightarrow> bool" where
  "is_range_order range_order \<longleftrightarrow> (\<forall>ks. mset (range_order ks) = mset ks)"

text \<open>Building a proof and serializing it: the wire form, or the failure.\<close>

definition build_and_serialize ::
  "('n, 'pt, 'fr, 'poly) externals \<Rightarrow> ('pt, 'fr) codec \<Rightarrow> (bytes list \<Rightarrow> bytes list) \<Rightarrow> 'n
     \<Rightarrow> bytes list \<Rightarrow> (bytes \<Rightarrow> bytes option) \<Rightarrow> error + (VerkleProof \<times> StateDiff)" where
  "build_and_serialize ext cd range_order root keys keyvals =
     (case snd (snd (MakeVerkleMultiProof ext range_order root keys keyvals)) of
        Inl e \<Rightarrow> Inl e
      | Inr (proof, cis, zis, yis) \<Rightarrow> SerializeProof cd proof)"

section \<open>The older builder and binary deserializer\<close>

text \<open>
  The second source file holds an older \<^verbatim>\<open>GetCommitmentsForMultiproof\<close> (lines 67-82),
  \<^verbatim>\<open>MakeVerkleMultiProof\<close> (lines 84-123) and \<^verbatim>\<open>DeserializeProof\<close> (lines 182-247),
  named here with the suffix \<open>_legacy\<close>. The older builder does not sort the keys,
  reads the values from the tree and has no error result: its only failures are panics.
\<close>

fun GetCommitmentsForMultiproof_legacy_loop ::
  "('n, 'pt, 'fr, 'poly) externals \<Rightarrow> 'n \<Rightarrow> ('pt, 'fr, 'poly) ProofElements \<Rightarrow> bytes
     \<Rightarrow> bytes list \<Rightarrow> bytes list \<Rightarrow> ('pt, 'fr, 'poly) ProofElements \<times> bytes \<times> bytes list" where
  "GetCommitmentsForMultiproof_legacy_loop ext root p extStatuses poaStems [] =
     (p, extStatuses, poaStems)"
| "GetCommitmentsForMultiproof_legacy_loop ext root p extStatuses poaStems (key # keys) =
     (let (pe, extStatus, alt) = GetCommitmentsAlongPath ext root key
      in GetCommitmentsForMultiproof_legacy_loop ext root (Merge ext p pe)
           (extStatuses @ [extStatus])
           (case alt of None \<Rightarrow> poaStems | Some a \<Rightarrow> poaStems @ [a])
           keys)"

definition GetCommitmentsForMultiproof_legacy ::
  "('n, 'pt, 'fr, 'poly) externals \<Rightarrow> 'n \<Rightarrow> bytes list
     \<Rightarrow> ('pt, 'fr, 'poly) ProofElements \<times> bytes \<times> bytes list" where
  "GetCommitmentsForMultiproof_legacy ext root keys =
     GetCommitmentsForMultiproof_legacy_loop ext root
       \<lparr>Cis = [], Zis = [], Yis = [], Fis = [], ByPath = []\<rparr> [] [] keys"

definition MakeVerkleMultiProof_legacy ::
  "('n, 'pt, 'fr, 'poly) externals \<Rightarrow> (bytes list \<Rightarrow> bytes list) \<Rightarrow> 'n \<Rightarrow> bytes list
     \<Rightarrow> error + (('pt, 'fr) Proof \<times> 'pt list \<times> bytes \<times> 'fr list)" where
  "MakeVerkleMultiProof_legacy ext range_order root keys =
     (let root' = ComputeCommitment ext root;
          (pe, es, poas) = GetCommitmentsForMultiproof_legacy ext root' keys;
          vals = map (Get ext root') keys
      in
        (case CreateMultiProof ext ''multiproof'' (Cis pe) (Fis pe) (Zis pe) of
           Inl e \<Rightarrow> Inl e
         | Inr mpArg \<Rightarrow>
             (case sorted_commitments range_order (ByPath pe) of
                Inl e \<Rightarrow> Inl e
              | Inr cis \<Rightarrow>
                  Inr (\<lparr>Multipoint = mpArg, ExtStatus = es, Cs = cis,
                        PoaStems = poas, Keys = keys, Values = vals\<rparr>,
                       Cis pe, Zis pe, Yis pe))))"

text \<open>
  \<^verbatim>\<open>binary.Read\<close> fills its target with \<^verbatim>\<open>io.ReadFull\<close>: \<^verbatim>\<open>io.EOF\<close> when nothing
  is left, \<^verbatim>\<open>io.ErrUnexpectedEOF\<close> when too little is. The reader is the list of the
  bytes not yet read.
\<close>

definition read_full :: "nat \<Rightarrow> bytes \<Rightarrow> error + (bytes \<times> bytes)" where
  "read_full n r =
     (if n \<le> length r then Inr (take n r, drop n r)
      else if r = [] then Inl (Error ''EOF'')
      else Inl (Error ''unexpected EOF''))"

definition read_uint32 :: "bytes \<Rightarrow> error + (nat \<times> bytes)" where
  "read_uint32 r =
     (case read_full 4 r of
        Inl e \<Rightarrow> Inl e
      | Inr (b, r') \<Rightarrow> Inr (foldr (\<lambda>x n. unat x + 256 * n) b 0, r'))"

fun read_poaStems :: "nat \<Rightarrow> bytes \<Rightarrow> error + (bytes list \<times> bytes)" where
  "read_poaStems 0 r = Inr ([], r)"
| "read_poaStems (Suc n) r =
     (case read_full 31 r of
        Inl e \<Rightarrow> Inl e
      | Inr (poaStem, r') \<Rightarrow>
          (case read_poaStems n r' of
             Inl e \<Rightarrow> Inl e
           | Inr (stems, r'') \<Rightarrow> Inr (poaStem # stems, r'')))"

fun read_extStatus :: "nat \<Rightarrow> bytes \<Rightarrow> error + (bytes \<times> bytes)" where
  "read_extStatus 0 r = Inr ([], r)"
| "read_extStatus (Suc n) r =
     (case read_full 1 r of
        Inl e \<Rightarrow> Inl e
      | Inr (e, r') \<Rightarrow>
          (case read_extStatus n r' of
             Inl err \<Rightarrow> Inl err
           | Inr (es, r'') \<Rightarrow> Inr (e @ es, r'')))"

fun read_commitments ::
  "('pt, 'fr) codec \<Rightarrow> nat \<Rightarrow> bytes \<Rightarrow> error + ('pt list \<times> bytes)" where
  "read_commitments cd 0 r = Inr ([], r)"
| "read_commitments cd (Suc n) r =
     (case read_full 32 r of
        Inl e \<Rightarrow> Inl e
      | Inr (commitmentBytes, r') \<Rightarrow>
          (case point_Unmarshal cd commitmentBytes of
             Inl e \<Rightarrow> Inl e
           | Inr commitment \<Rightarrow>
               (case read_commitments cd n r' of
                  Inl e \<Rightarrow> Inl e
                | Inr (cs, r'') \<Rightarrow> Inr (commitment # cs, r''))))"

text \<open>
  \<^verbatim>\<open>keys\<close> and \<^verbatim>\<open>values\<close> are declared and never assigned: the returned proof holds
  them as \<^verbatim>\<open>nil\<close>.
\<close>

definition DeserializeProof_legacy ::
  "('pt, 'fr) codec \<Rightarrow> bytes \<Rightarrow> error + ('pt, 'fr) Proof" where
  "DeserializeProof_legacy cd proofSerialized =
     (case read_uint32 proofSerialized of
        Inl e \<Rightarrow> Inl e
      | Inr (numPoaStems, r1) \<Rightarrow>
     (case read_poaStems numPoaStems r1 of
        Inl e \<Rightarrow> Inl e
      | Inr (poaStems, r2) \<Rightarrow>
     (case read_uint32 r2 of
        Inl e \<Rightarrow> Inl e
      | Inr (numExtStatus, r3) \<Rightarrow>
     (case read_extStatus numExtStatus r3 of
        Inl e \<Rightarrow> Inl e
      | Inr (extStatus, r4) \<Rightarrow>
     (case read_uint32 r4 of
        Inl e \<Rightarrow> Inl e
      | Inr (numCommitments, r5) \<Rightarrow>
     (case read_commitments cd numCommitments r5 of
        Inl e \<Rightarrow> Inl e
      | Inr (commitments, r6) \<Rightarrow>
          Inr \<lparr>Multipoint = multiproof_Read cd r6,
               ExtStatus = extStatus,
               Cs = commitments,
               PoaStems = poaStems,
               Keys = [],
               Values = []\<rparr>))))))"

section \<open>JSON forms (lines 81-119, 155-193, 221-247)\<close>

text \<open>
  Each \<^verbatim>\<open>UnmarshalJSON\<close> first lets \<^verbatim>\<open>json.Unmarshal\<close> fill an auxiliary struct of
  strings; the models start from that struct. \<^verbatim>\<open>hex.DecodeString\<close> of the standard
  library accepts digits of either case and rejects a character that is no digit, and
  then an odd length. A Go string is its bytes, so \<^verbatim>\<open>len\<close> is the length of the list.
\<close>

definition fromHexChar :: "char \<Rightarrow> byte option" where
  "fromHexChar c =
     (let n = (of_char c :: nat)
      in if 48 \<le> n \<and> n \<le> 57 then Some (of_nat (n - 48))
         else if 97 \<le> n \<and> n \<le> 102 then Some (of_nat (n - 97 + 10))
         else if 65 \<le> n \<and> n \<le> 70 then Some (of_nat (n - 65 + 10))
         else None)"

fun hex_DecodeString :: "string \<Rightarrow> error + bytes" where
  "hex_DecodeString [] = Inr []"
| "hex_DecodeString [p] =
     (case fromHexChar p of
        None \<Rightarrow> Inl (Error ''encoding/hex: invalid byte'')
      | Some a \<Rightarrow> Inl (Error ''encoding/hex: odd length hex string''))"
| "hex_DecodeString (p # q # rest) =
     (case fromHexChar p of
        None \<Rightarrow> Inl (Error ''encoding/hex: invalid byte'')
      | Some a \<Rightarrow>
          (case fromHexChar q of
             None \<Rightarrow> Inl (Error ''encoding/hex: invalid byte'')
           | Some b \<Rightarrow>
               (case hex_DecodeString rest of
                  Inl e \<Rightarrow> Inl e
                | Inr bs \<Rightarrow> Inr ((push_bit 4 a OR b) # bs))))"

record ipaproofMarshaller =
  aux_CL :: "string list"
  aux_CR :: "string list"
  aux_FinalEvaluation :: string

record verkleProofMarshaller =
  aux_OtherStems :: "string list"
  aux_DepthExtensionPresent :: string
  aux_CommitmentsByPath :: "string list"
  aux_D :: string
  aux_IPAProof :: "IPAProof option"

record suffixStateDiffMarshaller =
  aux_Suffix :: byte
  aux_CurrentValue :: string

text \<open>
  The loop \<^verbatim>\<open>for i := range ipp.CL\<close> of \<^verbatim>\<open>IPAProof.UnmarshalJSON\<close>, over the
  indices of the eight rounds. The messages are the fixed parts of the format strings.
\<close>

fun unmarshal_rounds ::
  "string list \<Rightarrow> string list \<Rightarrow> nat list \<Rightarrow> error + (bytes \<times> bytes) list" where
  "unmarshal_rounds cl cr [] = Inr []"
| "unmarshal_rounds cl cr (i # rest) =
     (if length (cl ! i) \<noteq> 64 then Inl (Error ''invalid hex string for CL'')
      else
        (case hex_DecodeString (cl ! i) of
           Inl e \<Rightarrow> Inl (Error ''error decoding hex string for CL'')
         | Inr val \<Rightarrow>
             if length (cr ! i) \<noteq> 64 then Inl (Error ''invalid hex string for CR'')
             else
               (case hex_DecodeString (cr ! i) of
                  Inl e \<Rightarrow> Inl (Error ''error decoding hex string for CR'')
                | Inr val' \<Rightarrow>
                    (case unmarshal_rounds cl cr rest of
                       Inl e \<Rightarrow> Inl e
                     | Inr rounds \<Rightarrow>
                         Inr ((copy_into 32 val, copy_into 32 val') # rounds)))))"

definition IPAProof_UnmarshalJSON :: "ipaproofMarshaller \<Rightarrow> error + IPAProof" where
  "IPAProof_UnmarshalJSON aux =
     (if length (aux_FinalEvaluation aux) \<noteq> 64
      then Inl (Error ''invalid hex string for final evaluation'')
      else
        (case hex_DecodeString (aux_FinalEvaluation aux) of
           Inl e \<Rightarrow> Inl (Error ''error decoding hex string for current value'')
         | Inr currentValueBytes \<Rightarrow>
             (case unmarshal_rounds (aux_CL aux) (aux_CR aux) [0..<8] of
                Inl e \<Rightarrow> Inl e
              | Inr rounds \<Rightarrow>
                  Inr \<lparr>CL = map fst rounds, CR = map snd rounds,
                       FinalEvaluation = copy_into 32 currentValueBytes\<rparr>)))"

definition SuffixStateDiff_UnmarshalJSON ::
  "suffixStateDiffMarshaller \<Rightarrow> error + SuffixStateDiff" where
  "SuffixStateDiff_UnmarshalJSON aux =
     (if length (aux_CurrentValue aux) \<noteq> 64
      then Inl (Error ''invalid hex string for current value'')
      else
        (case hex_DecodeString (aux_CurrentValue aux) of
           Inl e \<Rightarrow> Inl (Error ''error decoding hex string for current value'')
         | Inr currentValueBytes \<Rightarrow>
             Inr \<lparr>Suffix = aux_Suffix aux,
                  CurrentValue = Some (copy_into 32 currentValueBytes)\<rparr>))"

text \<open>
  The two loops of \<^verbatim>\<open>VerkleProof.UnmarshalJSON\<close>, over the commitments (\<open>n = 32\<close>)
  and over the other stems (\<open>n = 31\<close>): decode, then \<^verbatim>\<open>copy\<close> into the array.
\<close>

fun decode_hex_list :: "nat \<Rightarrow> string \<Rightarrow> string list \<Rightarrow> error + bytes list" where
  "decode_hex_list n msg [] = Inr []"
| "decode_hex_list n msg (c # rest) =
     (case hex_DecodeString c of
        Inl e \<Rightarrow> Inl (Error msg)
      | Inr val \<Rightarrow>
          (case decode_hex_list n msg rest of
             Inl e \<Rightarrow> Inl e
           | Inr vals \<Rightarrow> Inr (copy_into n val # vals)))"

definition VerkleProof_UnmarshalJSON :: "verkleProofMarshaller \<Rightarrow> error + VerkleProof" where
  "VerkleProof_UnmarshalJSON aux =
     (case hex_DecodeString (aux_DepthExtensionPresent aux) of
        Inl e \<Rightarrow> Inl (Error ''error decoding hex string for depth and extention present'')
      | Inr depthExtensionPresent \<Rightarrow>
     (case decode_hex_list 32 ''error decoding hex string for commitment''
             (aux_CommitmentsByPath aux) of
        Inl e \<Rightarrow> Inl e
      | Inr commitmentsByPath \<Rightarrow>
     (case hex_DecodeString (aux_D aux) of
        Inl e \<Rightarrow> Inl (Error ''error decoding hex string for D'')
      | Inr currentValueBytes \<Rightarrow>
     (case decode_hex_list 31 ''error decoding hex string for other stem''
             (aux_OtherStems aux) of
        Inl e \<Rightarrow> Inl e
      | Inr otherStems \<Rightarrow>
          Inr \<lparr>OtherStems = otherStems,
               DepthExtensionPresent = depthExtensionPresent,
               CommitmentsByPath = commitmentsByPath,
               vp_D = copy_into 32 currentValueBytes,
               vp_IPAProof = aux_IPAProof aux\<rparr>))))"

section \<open>\<^verbatim>\<open>TreeFromProof\<close> (lines 458-542)\<close>

text \<open>A Go map as an association list: a store replaces the entry of the key.\<close>

definition map_store :: "'k \<Rightarrow> 'v \<Rightarrow> ('k \<times> 'v) list \<Rightarrow> ('k \<times> 'v) list" where
  "map_store k v m = (k, v) # filter (\<lambda>kv. fst kv \<noteq> k) m"

text \<open>The first loop: the stems of the keys, without consecutive repetitions.\<close>

fun collect_stems :: "bytes list \<Rightarrow> bytes list \<Rightarrow> error + bytes list" where
  "collect_stems stems [] = Inr stems"
| "collect_stems stems (k # ks) =
     (if length k < 31 then Inl (Panic SliceBoundsOutOfRange)
      else if length stems = 0 \<or> last stems \<noteq> take 31 k
        then collect_stems (stems @ [take 31 k]) ks
        else collect_stems stems ks)"

text \<open>
  The loop over the keys in the default branch of the switch. \<^verbatim>\<open>proof.Values[i]\<close>
  is read only when the prefix of the key matches, \<^verbatim>\<open>k[31]\<close> only when the value is
  not \<^verbatim>\<open>nil\<close>. The values are consumed in step with the keys.
\<close>

fun present_loop ::
  "bytes \<Rightarrow> stemInfo \<Rightarrow> bytes list \<Rightarrow> bytes option list \<Rightarrow> error + stemInfo" where
  "present_loop stemPath si [] vs = Inr si"
| "present_loop stemPath si (k # ks) vs =
     (if take (length stemPath) k = stemPath
      then
        (case vs of
           [] \<Rightarrow> Inl (Panic IndexOutOfRange)
         | v # vs' \<Rightarrow>
             (case v of
                None \<Rightarrow> present_loop stemPath si ks vs'
              | Some val \<Rightarrow>
                  if length k < 32 then Inl (Panic IndexOutOfRange)
                  else present_loop stemPath
                         (si\<lparr>si_values :=
                                Some (map_store (k ! 31) val
                                        (case si_values si of None \<Rightarrow> [] | Some m \<Rightarrow> m)),
                             has_c1 := has_c1 si \<or> k ! 31 < 128,
                             has_c2 := has_c2 si \<or> 128 \<le> k ! 31,
                             si_stem := Some (take 31 k)\<rparr>)
                         ks vs'))
      else present_loop stemPath si ks (tl vs))"

text \<open>
  The switch on the stem type: nothing for an empty slot, the next proof-of-absence
  stem for another stem (\<^verbatim>\<open>poas[0]\<close>, with no test that one is left), the values of
  the keys otherwise. It yields the stem info and the stems still to consume.
\<close>

definition classify_stem ::
  "('n, 'pt, 'fr, 'poly) externals \<Rightarrow> ('pt, 'fr) Proof \<Rightarrow> bytes \<Rightarrow> stemInfo \<Rightarrow> bytes list
     \<Rightarrow> error + (stemInfo \<times> bytes list)" where
  "classify_stem ext proof path si poas =
     (if si_stemType si = extStatusAbsentEmpty ext then Inr (si, poas)
      else if si_stemType si = extStatusAbsentOther ext then
        (case poas of
           [] \<Rightarrow> Inl (Panic IndexOutOfRange)
         | p # poas' \<Rightarrow> Inr (si\<lparr>si_stem := Some p\<rparr>, poas'))
      else
        (case present_loop path (si\<lparr>si_values := Some []\<rparr>) (Keys proof) (Values proof) of
           Inl e \<Rightarrow> Inl e
         | Inr si' \<Rightarrow> Inr (si', poas)))"

text \<open>
  \<^verbatim>\<open>stemIndex++\<close> and the loop that skips the stems sharing the path.
\<close>

definition skip_stems :: "bytes list \<Rightarrow> nat \<Rightarrow> bytes \<Rightarrow> nat \<Rightarrow> nat" where
  "skip_stems stems depth path stemIndex =
     Suc stemIndex +
     length (takeWhile (\<lambda>stem. take depth stem = path) (drop (Suc stemIndex) stems))"

text \<open>
  The loop over \<^verbatim>\<open>proof.ExtStatus\<close>. Its state is the stem cursor, the map
  \<^verbatim>\<open>info\<close>, the list \<^verbatim>\<open>paths\<close> and the proof-of-absence stems left. The depth
  \<^verbatim>\<open>es >> 3\<close> is at most 31, the length of a stem.
\<close>

fun classify_loop ::
  "('n, 'pt, 'fr, 'poly) externals \<Rightarrow> ('pt, 'fr) Proof \<Rightarrow> bytes list \<Rightarrow> nat
     \<Rightarrow> (bytes \<times> stemInfo) list \<Rightarrow> bytes list \<Rightarrow> bytes list \<Rightarrow> bytes
     \<Rightarrow> error + ((bytes \<times> stemInfo) list \<times> bytes list)" where
  "classify_loop ext proof stems stemIndex info paths poas [] = Inr (info, paths)"
| "classify_loop ext proof stems stemIndex info paths poas (es # rest) =
     (let depth = drop_bit 3 es
      in if length stems \<le> stemIndex then Inl (Panic IndexOutOfRange)
         else
           (let path = take (unat depth) (stems ! stemIndex);
                si = \<lparr>si_depth = depth, si_stemType = es AND 3, has_c1 = False,
                      has_c2 = False, si_values = None, si_stem = None\<rparr>
            in
              (case classify_stem ext proof path si poas of
                 Inl e \<Rightarrow> Inl e
               | Inr (si', poas') \<Rightarrow>
                   classify_loop ext proof stems
                     (skip_stems stems (unat depth) path stemIndex)
                     (map_store path si' info) (paths @ [path]) poas' rest)))"

text \<open>The two loops that fill the stateless tree.\<close>

fun insert_stems ::
  "('n, 'pt, 'fr, 'poly) externals \<Rightarrow> (bytes \<times> stemInfo) list \<Rightarrow> 'n \<Rightarrow> 'pt list \<Rightarrow> bytes list
     \<Rightarrow> error + 'n" where
  "insert_stems ext info root comms [] = Inr root"
| "insert_stems ext info root comms (p # paths) =
     (case insertStem ext root p
             (case map_of info p of
                None \<Rightarrow> \<lparr>si_depth = 0, si_stemType = 0, has_c1 = False, has_c2 = False,
                          si_values = None, si_stem = None\<rparr>
              | Some si \<Rightarrow> si)
             comms of
        Inl e \<Rightarrow> Inl e
      | Inr (root', comms') \<Rightarrow> insert_stems ext info root' comms' paths)"

fun insert_values ::
  "('n, 'pt, 'fr, 'poly) externals \<Rightarrow> 'n \<Rightarrow> bytes list \<Rightarrow> bytes option list \<Rightarrow> error + 'n" where
  "insert_values ext root [] vs = Inr root"
| "insert_values ext root (k # ks) vs =
     (case vs of
        [] \<Rightarrow> Inl (Panic IndexOutOfRange)
      | v # vs' \<Rightarrow>
          (case v of
             None \<Rightarrow> insert_values ext root ks vs'
           | Some val \<Rightarrow>
               if length val = 0 then insert_values ext root ks vs'
               else
                 (case insertValue ext root k val of
                    Inl e \<Rightarrow> Inl e
                  | Inr root' \<Rightarrow> insert_values ext root' ks vs')))"

definition TreeFromProof ::
  "('n, 'pt, 'fr, 'poly) externals \<Rightarrow> ('pt, 'fr) Proof \<Rightarrow> 'pt \<Rightarrow> error + 'n" where
  "TreeFromProof ext proof rootC =
     (case collect_stems [] (Keys proof) of
        Inl e \<Rightarrow> Inl e
      | Inr stems \<Rightarrow>
          (case classify_loop ext proof stems 0 [] [] (PoaStems proof) (ExtStatus proof) of
             Inl e \<Rightarrow> Inl e
           | Inr (info, paths) \<Rightarrow>
               (case insert_stems ext info (NewStatelessWithCommitment ext rootC)
                       (Cs proof) paths of
                  Inl e \<Rightarrow> Inl e
                | Inr root \<Rightarrow> insert_values ext root (Keys proof) (Values proof))))"

text \<open>The entries of \<^verbatim>\<open>ExtStatus\<close> whose type is that of another stem.\<close>

definition absent_other_count :: "('n, 'pt, 'fr, 'poly) externals \<Rightarrow> bytes \<Rightarrow> nat" where
  "absent_other_count ext extStatus =
     length (filter (\<lambda>es. es AND 3 = extStatusAbsentOther ext) extStatus)"

section \<open>Stand-ins for running the definitions\<close>

text \<open>
  Concrete inputs need some group, some tree and some backend. The stand-ins have
  one-byte points and scalars, encoded in the first of 32 bytes; a tree module that
  answers every query with the root, and the two inner nodes of paths \<open>[1]\<close> and
  \<open>[0]\<close>; and a backend that returns a fixed opening with eight rounds. The
  extension-status constants are those of the spec: 0 for another stem, 2 for an
  empty slot.
\<close>

definition toy_codec :: "(byte, byte) codec" where
  "toy_codec =
     \<lparr>point_Bytes = (\<lambda>c. c # replicate 31 0),
      point_SetBytes = (\<lambda>b. case b of [] \<Rightarrow> 0 | x # xs \<Rightarrow> x),
      point_SetBytesTrusted =
        (\<lambda>b. case b of [] \<Rightarrow> Inl (Error ''invalid encoding'') | x # xs \<Rightarrow> Inr x),
      fr_Bytes = (\<lambda>a. a # replicate 31 0),
      fr_SetBytes = (\<lambda>b. case b of [] \<Rightarrow> 0 | x # xs \<Rightarrow> x),
      point_Unmarshal =
        (\<lambda>b. case b of [] \<Rightarrow> Inl (Error ''invalid encoding'') | x # xs \<Rightarrow> Inr x),
      multiproof_Read =
        (\<lambda>b. \<lparr>mp_D = 0, mp_IPA_L = replicate 8 0, mp_IPA_R = replicate 8 0,
               mp_IPA_A_scalar = 0\<rparr>)\<rparr>"

definition toy_multiproof :: "(byte, byte) MultiProof" where
  "toy_multiproof =
     \<lparr>mp_D = 9, mp_IPA_L = [1, 2, 3, 4, 5, 6, 7, 8], mp_IPA_R = [8, 7, 6, 5, 4, 3, 2, 1],
      mp_IPA_A_scalar = 3\<rparr>"

definition toy_elements :: "(byte, byte, unit) ProofElements" where
  "toy_elements =
     \<lparr>Cis = [4], Zis = [0], Yis = [6], Fis = [()],
      ByPath = [([], 4), ([1], 7), ([0], 5)]\<rparr>"

definition toy_externals :: "(unit, byte, byte, unit) externals" where
  "toy_externals =
     \<lparr>Commit = (\<lambda>root. root),
      GetProofItems = (\<lambda>root keys. (toy_elements, [10], [])),
      CreateMultiProof = (\<lambda>label cis fis zis. Inr toy_multiproof),
      ComputeCommitment = (\<lambda>root. root),
      GetCommitmentsAlongPath = (\<lambda>root key. (toy_elements, 10, None)),
      Merge = (\<lambda>p pe. pe),
      Get = (\<lambda>root key. None),
      extStatusAbsentEmpty = 2,
      extStatusAbsentOther = 0,
      NewStatelessWithCommitment = (\<lambda>c. ()),
      insertStem = (\<lambda>root path si comms. Inr (root, comms)),
      insertValue = (\<lambda>root k v. Inr root)\<rparr>"

definition key0 :: bytes where
  "key0 = replicate 31 0 @ [0]"

definition key1 :: bytes where
  "key1 = replicate 31 0 @ [1]"

definition toy_proof :: "bytes list \<Rightarrow> bytes option list \<Rightarrow> (byte, byte) Proof" where
  "toy_proof keys vals =
     \<lparr>Multipoint = toy_multiproof, ExtStatus = [10], Cs = [5, 7], PoaStems = [],
      Keys = keys, Values = vals\<rparr>"





definition toy_keyvals :: "bytes option \<Rightarrow> bytes \<Rightarrow> bytes option" where
  "toy_keyvals v k = (if k = key0 then v else None)"

text \<open>
  A proof in the older binary format: one proof-of-absence stem, one extension status,
  one commitment, and nothing for the multipoint. A proof whose only extension status
  is that of another stem at depth 1, with no proof-of-absence stem. The auxiliary
  struct of a \<^verbatim>\<open>VerkleProof\<close> whose hex strings are one byte long.
\<close>

definition legacy_wire :: bytes where
  "legacy_wire =
     [1, 0, 0, 0] @ replicate 31 5 @ [1, 0, 0, 0] @ [10] @ [1, 0, 0, 0] @ (7 # replicate 31 0)"

definition poa_exhausted_proof :: "(byte, byte) Proof" where
  "poa_exhausted_proof =
     \<lparr>Multipoint = toy_multiproof, ExtStatus = [8], Cs = [5], PoaStems = [],
      Keys = [key0], Values = [None]\<rparr>"

definition short_hex_aux :: verkleProofMarshaller where
  "short_hex_aux =
     \<lparr>aux_OtherStems = [''ab''], aux_DepthExtensionPresent = ''0a'',
      aux_CommitmentsByPath = [''cd''], aux_D = ''Ab'', aux_IPAProof = None\<rparr>"

text \<open>
  Three readings of a state diff, for stating how it groups the keys. The pairs of a
  group's stem with each of its suffix diffs, group by group. For each suffix diff in
  that order, whether it is the first of its group. And, from the words of the spec,
  whether each key of a list starts a new group: the first key does, and a later key
  does exactly when its stem \<^verbatim>\<open>key[:31]\<close> differs from that of the key before.
\<close>

definition stem_suffix_pairs :: "StateDiff \<Rightarrow> (bytes \<times> SuffixStateDiff) list" where
  "stem_suffix_pairs sd = concat (map (\<lambda>d. map (\<lambda>x. (Stem d, x)) (SuffixDiffs d)) sd)"

definition group_starts :: "StateDiff \<Rightarrow> bool list" where
  "group_starts sd =
     concat (map (\<lambda>d. True # replicate (length (SuffixDiffs d) - 1) False) sd)"

fun starts_new_stem :: "bytes option \<Rightarrow> bytes list \<Rightarrow> bool list" where
  "starts_new_stem previous [] = []"
| "starts_new_stem previous (key # keys) =
     (previous \<noteq> Some (take 31 key)) # starts_new_stem (Some (take 31 key)) keys"

text \<open>
  A state diff groups the keys by stem when its groups are not empty, consecutive
  groups have different stems, and every key's suffix diff stands, in key order, in a
  group of the key's stem.
\<close>

definition groups_by_stem :: "bytes list \<Rightarrow> bytes option list \<Rightarrow> StateDiff \<Rightarrow> bool" where
  "groups_by_stem keys vals sd \<longleftrightarrow>
     (\<forall>d \<in> set sd. SuffixDiffs d \<noteq> []) \<and>
     distinct_adj (map Stem sd) \<and>
     stem_suffix_pairs sd =
       map (\<lambda>(k, v). (take 31 k, \<lparr>Suffix = k ! 31, CurrentValue = padded v\<rparr>)) (zip keys vals)"

section \<open>Properties of the serializer\<close>


lemma concat_map_snoc:
  "sd \<noteq> [] \<Longrightarrow> concat (map f sd) = concat (map f (butlast sd)) @ f (last sd)"
  by (induction sd) auto

lemma open_stem_not_Nil: "open_stem sd key \<noteq> []"
  by (simp add: open_stem_def)

lemma Stem_last_open_stem:
  "31 \<le> length key \<Longrightarrow> Stem (last (open_stem sd key)) = take 31 key"
  by (simp add: open_stem_def copy_into_def)

lemma suffixes_open_stem:
  "concat (map SuffixDiffs (open_stem sd key)) = concat (map SuffixDiffs sd)"
  by (simp add: open_stem_def)

lemma suffixes_append_suffix:
  "sd \<noteq> [] \<Longrightarrow>
   concat (map SuffixDiffs (append_suffix sd x)) = concat (map SuffixDiffs sd) @ [x]"
  by (simp add: append_suffix_def concat_map_snoc [of sd SuffixDiffs])

lemma map_Stem_append_suffix:
  "sd \<noteq> [] \<Longrightarrow> map Stem (append_suffix sd x) = map Stem sd"
  by (induction sd) (auto simp: append_suffix_def)





lemma current_value_Inr:
  "current_value v = Inr cv \<Longrightarrow> cv = padded v \<and> len_opt v \<le> 32"
  by (simp add: current_value_def padded_def split: if_splits)

lemma current_value_returns: "len_opt v \<le> 32 \<Longrightarrow> current_value v = Inr (padded v)"
  by (simp add: current_value_def padded_def)

text \<open>One successful turn of the loop.\<close>

lemma statediff_loop_Cons_Inr:
  assumes "statediff_loop sd (key # keys) vs = Inr sd'"
  obtains v vs' where "vs = v # vs'" "32 \<le> length key" "len_opt v \<le> 32"
    "statediff_loop (append_suffix (open_stem sd key)
        \<lparr>Suffix = key ! 31, CurrentValue = padded v\<rparr>) keys vs' = Inr sd'"
proof (cases vs)
  case Nil
  with assms show ?thesis by (simp split: if_splits)
next
  case (Cons v vs')
  show ?thesis
  proof (cases "current_value v")
    case (Inl e)
    with assms Cons show ?thesis by (simp split: if_splits)
  next
    case (Inr cv)
    from current_value_Inr [OF Inr] have "cv = padded v" "len_opt v \<le> 32" by simp_all
    with assms Cons Inr that show ?thesis by (simp split: if_splits)
  qed
qed

lemma statediff_loop_suffixes:
  "statediff_loop sd keys vs = Inr sd' \<Longrightarrow>
   concat (map SuffixDiffs sd') =
     concat (map SuffixDiffs sd) @
     map (\<lambda>(k, v). \<lparr>Suffix = k ! 31, CurrentValue = padded v\<rparr>) (zip keys vs)"
proof (induction keys arbitrary: sd vs)
  case Nil
  then show ?case by simp
next
  case (Cons key keys)
  from Cons.prems obtain v vs' where vs: "vs = v # vs'"
    and step: "statediff_loop (append_suffix (open_stem sd key)
        \<lparr>Suffix = key ! 31, CurrentValue = padded v\<rparr>) keys vs' = Inr sd'"
    by (rule statediff_loop_Cons_Inr)
  from Cons.IH [OF step] vs show ?case
    by (simp add: suffixes_append_suffix open_stem_not_Nil suffixes_open_stem)
qed




lemma statediff_loop_returns:
  "\<forall>k \<in> set keys. 32 \<le> length k \<Longrightarrow> length keys \<le> length vs \<Longrightarrow>
   \<forall>v \<in> set (take (length keys) vs). len_opt v \<le> 32 \<Longrightarrow>
   \<exists>sd'. statediff_loop sd keys vs = Inr sd'"
proof (induction keys arbitrary: sd vs)
  case Nil
  then show ?case by simp
next
  case (Cons key keys)
  then obtain v vs' where vs: "vs = v # vs'" by (cases vs) auto
  with Cons.prems have "len_opt v \<le> 32" by simp
  then have cv: "current_value v = Inr (padded v)"
    by (rule current_value_returns)
  from Cons.prems vs have
    "\<exists>sd'. statediff_loop (append_suffix (open_stem sd key)
        \<lparr>Suffix = key ! 31, CurrentValue = padded v\<rparr>) keys vs' = Inr sd'"
    by (intro Cons.IH) auto
  with Cons.prems vs cv show ?case by simp
qed

lemma statediff_loop_Inr_conds:
  "statediff_loop sd keys vs = Inr sd' \<Longrightarrow>
   (\<forall>k \<in> set keys. 32 \<le> length k) \<and> length keys \<le> length vs \<and>
   (\<forall>v \<in> set (take (length keys) vs). len_opt v \<le> 32)"
proof (induction keys arbitrary: sd vs)
  case Nil
  then show ?case by simp
next
  case (Cons key keys)
  from Cons.prems obtain v vs' where vs: "vs = v # vs'" and len: "32 \<le> length key"
    and lv: "len_opt v \<le> 32"
    and step: "statediff_loop (append_suffix (open_stem sd key)
        \<lparr>Suffix = key ! 31, CurrentValue = padded v\<rparr>) keys vs' = Inr sd'"
    by (rule statediff_loop_Cons_Inr)
  from Cons.IH [OF step] vs len lv show ?case by simp
qed

lemma SerializeProof_Inr:
  "SerializeProof cd proof = Inr (vp, sd) \<Longrightarrow>
   statediff_loop [] (Keys proof) (Values proof) = Inr sd \<and>
   8 \<le> length (mp_IPA_L (Multipoint proof)) \<and> 8 \<le> length (mp_IPA_R (Multipoint proof))"
  by (simp add: SerializeProof_def Let_def split: if_splits sum.splits)

text \<open>\<^verbatim>\<open>SerializeProof\<close> returns exactly on the serializable proofs.\<close>

lemma SerializeProof_returns_iff:
  "(\<exists>r. SerializeProof cd proof = Inr r) \<longleftrightarrow> serializable proof"
proof
  assume "\<exists>r. SerializeProof cd proof = Inr r"
  then obtain vp sd where "SerializeProof cd proof = Inr (vp, sd)" by auto
  from SerializeProof_Inr [OF this]
    statediff_loop_Inr_conds [of "[]" "Keys proof" "Values proof" sd]
  show "serializable proof" by (simp add: serializable_def)
next
  assume s: "serializable proof"
  then obtain sd where "statediff_loop [] (Keys proof) (Values proof) = Inr sd"
    using statediff_loop_returns [of "Keys proof" "Values proof" "[]"]
    by (auto simp: serializable_def)
  with s show "\<exists>r. SerializeProof cd proof = Inr r"
    by (simp add: SerializeProof_def Let_def serializable_def)
qed

lemma map_Stem_open_stem:
  assumes "31 \<le> length key" "map Stem sd = remdups_adj seen"
  shows "map Stem (open_stem sd key) = remdups_adj (seen @ [take 31 key])"
proof (cases "sd = []")
  case True
  with assms(2) have "remdups_adj seen = []" by simp
  then have "seen = []" by simp
  with True assms(1) show ?thesis by (simp add: open_stem_def copy_into_def)
next
  case False
  with assms have seen: "seen \<noteq> []" by auto
  have "last (map Stem sd) = last seen"
    using assms(2) seen by (simp add: last_remdups_adj)
  then have l: "Stem (last sd) = last seen" using False by (simp add: last_map)
  show ?thesis
  proof (cases "Stem (last sd) = take 31 key")
    case True
    with l seen assms False show ?thesis
      by (simp add: open_stem_def remdups_adj_append'')
  next
    case neq: False
    with l seen have "remdups_adj (seen @ [take 31 key]) = remdups_adj seen @ [take 31 key]"
      by (simp add: remdups_adj_append')
    with neq assms False show ?thesis by (simp add: open_stem_def copy_into_def)
  qed
qed

lemma statediff_loop_stems:
  "statediff_loop sd keys vs = Inr sd' \<Longrightarrow> map Stem sd = remdups_adj seen \<Longrightarrow>
   map Stem sd' = remdups_adj (seen @ map (take 31) keys)"
proof (induction keys arbitrary: sd vs seen)
  case Nil
  then show ?case by simp
next
  case (Cons key keys)
  from Cons.prems(1) obtain v vs' where vs: "vs = v # vs'" and len: "32 \<le> length key"
    and step: "statediff_loop (append_suffix (open_stem sd key)
        \<lparr>Suffix = key ! 31, CurrentValue = padded v\<rparr>) keys vs' = Inr sd'"
    by (rule statediff_loop_Cons_Inr)
  from len have "31 \<le> length key" by simp
  from map_Stem_open_stem [OF this Cons.prems(2)]
  have "map Stem (append_suffix (open_stem sd key)
          \<lparr>Suffix = key ! 31, CurrentValue = padded v\<rparr>)
        = remdups_adj ((seen @ [take 31 key]))"
    by (simp add: map_Stem_append_suffix open_stem_not_Nil)
  from Cons.IH [OF step this] show ?case by simp
qed

lemma nonempty_groups_step:
  assumes "\<forall>d \<in> set sd. SuffixDiffs d \<noteq> []"
  shows "\<forall>d \<in> set (append_suffix (open_stem sd key) x). SuffixDiffs d \<noteq> []"
proof -
  have "set (butlast (open_stem sd key)) \<subseteq> set sd"
    by (auto simp: open_stem_def dest: in_set_butlastD)
  with assms show ?thesis by (auto simp: append_suffix_def)
qed

lemma statediff_loop_nonempty_groups:
  "statediff_loop sd keys vs = Inr sd' \<Longrightarrow> \<forall>d \<in> set sd. SuffixDiffs d \<noteq> [] \<Longrightarrow>
   \<forall>d \<in> set sd'. SuffixDiffs d \<noteq> []"
proof (induction keys arbitrary: sd vs)
  case Nil
  then show ?case by simp
next
  case (Cons key keys)
  from Cons.prems(1) obtain v vs' where
    step: "statediff_loop (append_suffix (open_stem sd key)
        \<lparr>Suffix = key ! 31, CurrentValue = padded v\<rparr>) keys vs' = Inr sd'"
    by (rule statediff_loop_Cons_Inr)
  from Cons.IH [OF step nonempty_groups_step [OF Cons.prems(2)]] show ?case .
qed

lemma scenario_two_keys:
  assumes "length s = 31" "length v1 = 32" "length v2 = 32"
  shows "statediff_loop [] [s @ [0], s @ [128]] [Some v1, Some v2] =
     Inr [\<lparr>Stem = s, SuffixDiffs = [\<lparr>Suffix = 0, CurrentValue = Some v1\<rparr>,
                                    \<lparr>Suffix = 128, CurrentValue = Some v2\<rparr>]\<rparr>]"
  using assms
  by (simp add: open_stem_def append_suffix_def current_value_def len_opt_def copy_into_def
      nth_append)

text \<open>
  C7. On a proof that \<^verbatim>\<open>SerializeProof\<close> accepts, the suffix diff of the \<open>i\<close>-th key
  carries the suffix \<^verbatim>\<open>key[31]\<close>; for a value of 1 to 31 bytes its current value is
  the value followed by zero bytes up to 32 bytes, and for a value of length 0 it is
  omitted (\<^verbatim>\<open>nil\<close>).
\<close>

theorem SerializeProof_pads_short_values:
  assumes "serializable proof" and "i < length (Keys proof)"
  shows "\<exists>vp sd. SerializeProof cd proof = Inr (vp, sd) \<and>
           i < length (concat (map SuffixDiffs sd)) \<and>
           Suffix (concat (map SuffixDiffs sd) ! i) = Keys proof ! i ! 31 \<and>
           (\<forall>v. Values proof ! i = Some v \<and> 0 < length v \<and> length v < 32 \<longrightarrow>
                CurrentValue (concat (map SuffixDiffs sd) ! i)
                  = Some (v @ replicate (32 - length v) 0) \<and>
                length (v @ replicate (32 - length v) 0) = 32) \<and>
           (len_opt (Values proof ! i) = 0 \<longrightarrow>
                CurrentValue (concat (map SuffixDiffs sd) ! i) = None)"
proof -
  from assms(1) obtain vp sd where r: "SerializeProof cd proof = Inr (vp, sd)"
    using SerializeProof_returns_iff [of cd "proof"] by auto
  from SerializeProof_Inr [OF r]
  have loop: "statediff_loop [] (Keys proof) (Values proof) = Inr sd" by simp
  from assms have iv: "i < length (Values proof)" by (simp add: serializable_def)
  from statediff_loop_suffixes [OF loop]
  have eq: "concat (map SuffixDiffs sd) =
      map (\<lambda>(k, v). \<lparr>Suffix = k ! 31, CurrentValue = padded v\<rparr>)
        (zip (Keys proof) (Values proof))"
    by simp
  from assms(2) iv have
    nth: "concat (map SuffixDiffs sd) ! i =
          \<lparr>Suffix = Keys proof ! i ! 31, CurrentValue = padded (Values proof ! i)\<rparr>"
    and len: "i < length (concat (map SuffixDiffs sd))"
    unfolding eq by simp_all
  have "padded (Some v) = Some (v @ replicate (32 - length v) 0)"
    if "0 < length v" "length v < 32" for v
    using that by (simp add: padded_def len_opt_def)
  moreover have "padded (Values proof ! i) = None" if "len_opt (Values proof ! i) = 0"
    using that by (simp add: padded_def)
  ultimately show ?thesis using r nth len by auto
qed

theorem SerializeProof_pads_short_values_witness:
  "serializable (toy_proof [key0, key1] [Some [1, 2, 3], None]) \<and>
   (\<exists>vp sd. SerializeProof toy_codec (toy_proof [key0, key1] [Some [1, 2, 3], None])
               = Inr (vp, sd) \<and>
      CurrentValue (concat (map SuffixDiffs sd) ! 0) = Some ([1, 2, 3] @ replicate 29 0) \<and>
      CurrentValue (concat (map SuffixDiffs sd) ! 1) = None)"
proof -
  let ?p = "toy_proof [key0, key1] [Some [1, 2, 3], None]"
  have s: "serializable ?p"
    by (simp add: serializable_def toy_proof_def toy_multiproof_def key0_def key1_def
        len_opt_def)
  have i0: "0 < length (Keys ?p)" and i1: "1 < length (Keys ?p)"
    by (simp_all add: toy_proof_def)
  from SerializeProof_pads_short_values [OF s i0, of toy_codec]
  obtain vp sd where r: "SerializeProof toy_codec ?p = Inr (vp, sd)"
    and v0: "CurrentValue (concat (map SuffixDiffs sd) ! 0) = Some ([1, 2, 3] @ replicate 29 0)"
    by (auto simp: toy_proof_def)
  from SerializeProof_pads_short_values [OF s i1, of toy_codec] r
  have "CurrentValue (concat (map SuffixDiffs sd) ! 1) = None"
    by (auto simp: toy_proof_def len_opt_def)
  with s r v0 show ?thesis by blast
qed

lemma pairs_open_stem: "stem_suffix_pairs (open_stem sd key) = stem_suffix_pairs sd"
  by (simp add: open_stem_def stem_suffix_pairs_def)

lemma pairs_append_suffix:
  "sd \<noteq> [] \<Longrightarrow>
   stem_suffix_pairs (append_suffix sd x) = stem_suffix_pairs sd @ [(Stem (last sd), x)]"
  unfolding stem_suffix_pairs_def append_suffix_def
  by (subst (2) concat_map_snoc) simp_all

lemma statediff_loop_pairs:
  "statediff_loop sd keys vs = Inr sd' \<Longrightarrow>
   stem_suffix_pairs sd' =
     stem_suffix_pairs sd @
     map (\<lambda>(k, v). (take 31 k, \<lparr>Suffix = k ! 31, CurrentValue = padded v\<rparr>)) (zip keys vs)"
proof (induction keys arbitrary: sd vs)
  case Nil
  then show ?case by simp
next
  case (Cons key keys)
  from Cons.prems obtain v vs' where vs: "vs = v # vs'" and len: "32 \<le> length key"
    and step: "statediff_loop (append_suffix (open_stem sd key)
        \<lparr>Suffix = key ! 31, CurrentValue = padded v\<rparr>) keys vs' = Inr sd'"
    by (rule statediff_loop_Cons_Inr)
  from len have "Stem (last (open_stem sd key)) = take 31 key"
    by (intro Stem_last_open_stem) simp
  with Cons.IH [OF step] vs show ?case
    by (simp add: pairs_append_suffix open_stem_not_Nil pairs_open_stem)
qed

lemma starts_step:
  assumes "\<forall>d \<in> set sd. SuffixDiffs d \<noteq> []"
  shows "group_starts (append_suffix (open_stem sd key) x)
         = group_starts sd @ [sd = [] \<or> Stem (last sd) \<noteq> take 31 key]"
proof (cases "sd = [] \<or> Stem (last sd) \<noteq> take 31 key")
  case True
  then have "append_suffix (open_stem sd key) x
             = sd @ [\<lparr>Stem = copy_into 31 (take 31 key), SuffixDiffs = [x]\<rparr>]"
    by (auto simp: open_stem_def append_suffix_def)
  with True show ?thesis by (auto simp: group_starts_def)
next
  case False
  then have ne: "sd \<noteq> []" and o: "open_stem sd key = sd" by (auto simp: open_stem_def)
  from ne assms have l: "SuffixDiffs (last sd) \<noteq> []" by simp
  let ?f = "\<lambda>d. True # replicate (length (SuffixDiffs d) - 1) False"
  have "group_starts sd = concat (map ?f (butlast sd)) @ ?f (last sd)"
    unfolding group_starts_def using ne by (rule concat_map_snoc)
  moreover have "replicate (length (SuffixDiffs (last sd))) False
                 = replicate (length (SuffixDiffs (last sd)) - 1) False @ [False]"
    using l by (cases "SuffixDiffs (last sd)") (simp_all add: replicate_append_same)
  ultimately show ?thesis using False o
    by (simp add: group_starts_def append_suffix_def)
qed

lemma statediff_loop_starts:
  "statediff_loop sd keys vs = Inr sd' \<Longrightarrow> \<forall>d \<in> set sd. SuffixDiffs d \<noteq> [] \<Longrightarrow>
   group_starts sd' =
     group_starts sd @
     starts_new_stem (if sd = [] then None else Some (Stem (last sd))) keys"
proof (induction keys arbitrary: sd vs)
  case Nil
  then show ?case by simp
next
  case (Cons key keys)
  let ?x = "\<lambda>v. \<lparr>Suffix = key ! 31, CurrentValue = padded v\<rparr>"
  from Cons.prems(1) obtain v vs' where vs: "vs = v # vs'" and len: "32 \<le> length key"
    and step: "statediff_loop (append_suffix (open_stem sd key) (?x v)) keys vs' = Inr sd'"
    by (rule statediff_loop_Cons_Inr)
  let ?sd1 = "append_suffix (open_stem sd key) (?x v)"
  have ne: "?sd1 \<noteq> []" by (simp add: append_suffix_def)
  have "map Stem ?sd1 = map Stem (open_stem sd key)"
    by (rule map_Stem_append_suffix) (rule open_stem_not_Nil)
  then have "last (map Stem ?sd1) = last (map Stem (open_stem sd key))" by simp
  then have "Stem (last ?sd1) = Stem (last (open_stem sd key))"
    using ne open_stem_not_Nil [of sd key] by (simp add: last_map)
  with len have st: "Stem (last ?sd1) = take 31 key"
    by (simp add: Stem_last_open_stem)
  from Cons.IH [OF step nonempty_groups_step [OF Cons.prems(2)]] ne st
  have "group_starts sd' = group_starts ?sd1 @ starts_new_stem (Some (take 31 key)) keys"
    by simp
  with starts_step [OF Cons.prems(2), of key "?x v"] show ?case by auto
qed

text \<open>A state diff that groups the keys by stem is the only one.\<close>

lemma takeWhile_run:
  "\<forall>p \<in> set xs. P p \<Longrightarrow> rest = [] \<or> \<not> P (hd rest) \<Longrightarrow>
   takeWhile P (xs @ rest) = xs"
  by (induction xs) (auto simp: takeWhile_eq_Nil_iff)

lemma dropWhile_run:
  "\<forall>p \<in> set xs. P p \<Longrightarrow> rest = [] \<or> \<not> P (hd rest) \<Longrightarrow>
   dropWhile P (xs @ rest) = rest"
  by (induction xs) (auto simp: dropWhile_eq_self_iff)

lemma pairs_Cons:
  "stem_suffix_pairs (d # ds) = map (\<lambda>x. (Stem d, x)) (SuffixDiffs d) @ stem_suffix_pairs ds"
  by (simp add: stem_suffix_pairs_def)

lemma pairs_head:
  assumes "\<forall>d \<in> set (d # ds). SuffixDiffs d \<noteq> []" "distinct_adj (map Stem (d # ds))"
  shows "takeWhile (\<lambda>p. fst p = Stem d) (stem_suffix_pairs (d # ds))
           = map (\<lambda>x. (Stem d, x)) (SuffixDiffs d)"
    and "dropWhile (\<lambda>p. fst p = Stem d) (stem_suffix_pairs (d # ds)) = stem_suffix_pairs ds"
    and "stem_suffix_pairs (d # ds) \<noteq> []"
    and "fst (hd (stem_suffix_pairs (d # ds))) = Stem d"
proof -
  have stop: "stem_suffix_pairs ds = [] \<or> \<not> fst (hd (stem_suffix_pairs ds)) = Stem d"
  proof (cases ds)
    case Nil
    then show ?thesis by (simp add: stem_suffix_pairs_def)
  next
    case (Cons d' ds')
    with assms have "SuffixDiffs d' \<noteq> []" "Stem d \<noteq> Stem d'"
      by (simp_all add: distinct_adj_Cons)
    with Cons show ?thesis by (cases "SuffixDiffs d'") (simp_all add: pairs_Cons)
  qed
  have all: "\<forall>p \<in> set (map (\<lambda>x. (Stem d, x)) (SuffixDiffs d)). fst p = Stem d" by simp
  show "takeWhile (\<lambda>p. fst p = Stem d) (stem_suffix_pairs (d # ds))
           = map (\<lambda>x. (Stem d, x)) (SuffixDiffs d)"
    unfolding pairs_Cons by (rule takeWhile_run [OF all stop])
  show "dropWhile (\<lambda>p. fst p = Stem d) (stem_suffix_pairs (d # ds))
           = stem_suffix_pairs ds"
    unfolding pairs_Cons by (rule dropWhile_run [OF all stop])
  from assms(1) show "stem_suffix_pairs (d # ds) \<noteq> []"
    by (simp add: pairs_Cons)
  from assms(1) show "fst (hd (stem_suffix_pairs (d # ds))) = Stem d"
    by (cases "SuffixDiffs d") (simp_all add: pairs_Cons)
qed

lemma groups_unique_aux:
  "\<forall>d \<in> set sd. SuffixDiffs d \<noteq> [] \<Longrightarrow> distinct_adj (map Stem sd) \<Longrightarrow>
   \<forall>d \<in> set sd'. SuffixDiffs d \<noteq> [] \<Longrightarrow> distinct_adj (map Stem sd') \<Longrightarrow>
   stem_suffix_pairs sd = stem_suffix_pairs sd' \<Longrightarrow> sd = sd'"
proof (induction sd arbitrary: sd')
  case Nil
  show ?case
  proof (cases sd')
    case Nil
    then show ?thesis by simp
  next
    case (Cons d' ds')
    from pairs_head(3) [OF Nil.prems(3,4) [unfolded Cons]] Nil.prems(5) Cons
    show ?thesis by (simp add: stem_suffix_pairs_def)
  qed
next
  case (Cons d ds)
  note h = pairs_head [OF Cons.prems(1,2)]
  show ?case
  proof (cases sd')
    case Nil
    with h(3) Cons.prems(5) show ?thesis by (simp add: stem_suffix_pairs_def)
  next
    case c: (Cons d' ds')
    note h' = pairs_head [OF Cons.prems(3,4) [unfolded c]]
    from h(4) h'(4) Cons.prems(5) c have stem: "Stem d = Stem d'" by simp
    from h(1) h'(1) Cons.prems(5) c stem
    have "map (\<lambda>x. (Stem d, x)) (SuffixDiffs d) = map (\<lambda>x. (Stem d, x)) (SuffixDiffs d')"
      by simp
    then have "map snd (map (\<lambda>x. (Stem d, x)) (SuffixDiffs d))
               = map snd (map (\<lambda>x. (Stem d, x)) (SuffixDiffs d'))"
      by simp
    then have sfx: "SuffixDiffs d = SuffixDiffs d'" by (simp add: comp_def)
    from h(2) h'(2) Cons.prems(5) c stem
    have rest: "stem_suffix_pairs ds = stem_suffix_pairs ds'" by simp
    from Cons.prems c have "ds = ds'"
      by (intro Cons.IH rest) (auto dest: distinct_adj_ConsD)
    with stem sfx c show ?thesis by simp
  qed
qed

lemma groups_by_stem_unique:
  "groups_by_stem keys vals sd \<Longrightarrow> groups_by_stem keys vals sd' \<Longrightarrow> sd = sd'"
  by (intro groups_unique_aux) (simp_all add: groups_by_stem_def)

text \<open>
  C6. On a proof that \<^verbatim>\<open>SerializeProof\<close> accepts, a suffix diff is the first of its
  \<^verbatim>\<open>StemStateDiff\<close> exactly when its key is the first key or has a stem
  \<^verbatim>\<open>key[:31]\<close> different from that of the key before. The state diff groups the
  keys by stem: no group is empty, consecutive groups have different stems, and every
  key's suffix diff \<open>{key[31], value}\<close> stands, in key order, in a group of the key's
  stem; it is the only state diff that does. So the stems of the groups are the stems
  of the keys with every run of equal consecutive stems collapsed to one entry. In
  particular two keys \<open>s||00\<close> and \<open>s||80\<close> with 32-byte values \<open>v1\<close> and
  \<open>v2\<close> give the single group of stem \<open>s\<close> with the suffix diffs \<open>{00, v1}\<close>
  and \<open>{80, v2}\<close>.
\<close>

theorem SerializeProof_groups_by_stem:
  assumes "serializable proof"
  shows "\<exists>vp sd. SerializeProof cd proof = Inr (vp, sd) \<and>
           group_starts sd = starts_new_stem None (Keys proof) \<and>
           groups_by_stem (Keys proof) (Values proof) sd \<and>
           (\<forall>sd'. groups_by_stem (Keys proof) (Values proof) sd' \<longrightarrow> sd' = sd) \<and>
           map Stem sd = remdups_adj (map (take 31) (Keys proof)) \<and>
           (\<forall>d \<in> set sd. SuffixDiffs d \<noteq> []) \<and>
           concat (map SuffixDiffs sd) =
             map (\<lambda>(k, v). \<lparr>Suffix = k ! 31, CurrentValue = padded v\<rparr>)
               (zip (Keys proof) (Values proof)) \<and>
           (\<forall>s v1 v2. length s = 31 \<and> length v1 = 32 \<and> length v2 = 32 \<and>
              Keys proof = [s @ [0], s @ [128]] \<and> Values proof = [Some v1, Some v2] \<longrightarrow>
              sd = [\<lparr>Stem = s, SuffixDiffs = [\<lparr>Suffix = 0, CurrentValue = Some v1\<rparr>,
                                               \<lparr>Suffix = 128, CurrentValue = Some v2\<rparr>]\<rparr>])"
proof -
  from assms obtain vp sd where r: "SerializeProof cd proof = Inr (vp, sd)"
    using SerializeProof_returns_iff [of cd "proof"] by auto
  from SerializeProof_Inr [OF r]
  have loop: "statediff_loop [] (Keys proof) (Values proof) = Inr sd" by simp
  have starts: "group_starts sd = starts_new_stem None (Keys proof)"
    using statediff_loop_starts [OF loop] by (simp add: group_starts_def)
  have stems: "map Stem sd = remdups_adj (map (take 31) (Keys proof))"
    using statediff_loop_stems [OF loop, of "[]"] by simp
  have groups: "\<forall>d \<in> set sd. SuffixDiffs d \<noteq> []"
    using statediff_loop_nonempty_groups [OF loop] by simp
  have pairs: "stem_suffix_pairs sd =
      map (\<lambda>(k, v). (take 31 k, \<lparr>Suffix = k ! 31, CurrentValue = padded v\<rparr>))
        (zip (Keys proof) (Values proof))"
    using statediff_loop_pairs [OF loop] by (simp add: stem_suffix_pairs_def)
  have "distinct_adj (map Stem sd)" unfolding stems by simp
  with groups pairs have g: "groups_by_stem (Keys proof) (Values proof) sd"
    by (simp add: groups_by_stem_def)
  have only: "\<forall>sd'. groups_by_stem (Keys proof) (Values proof) sd' \<longrightarrow> sd' = sd"
    using groups_by_stem_unique [OF _ g] by blast
  have suffixes: "concat (map SuffixDiffs sd) =
      map (\<lambda>(k, v). \<lparr>Suffix = k ! 31, CurrentValue = padded v\<rparr>)
        (zip (Keys proof) (Values proof))"
    using statediff_loop_suffixes [OF loop] by simp
  have two: "sd = [\<lparr>Stem = s, SuffixDiffs = [\<lparr>Suffix = 0, CurrentValue = Some v1\<rparr>,
                                               \<lparr>Suffix = 128, CurrentValue = Some v2\<rparr>]\<rparr>]"
    if "length s = 31" "length v1 = 32" "length v2 = 32"
      "Keys proof = [s @ [0], s @ [128]]" "Values proof = [Some v1, Some v2]" for s v1 v2
    using loop that scenario_two_keys [of s v1 v2] by simp
  from r starts g only stems groups suffixes two show ?thesis by blast
qed

theorem SerializeProof_groups_by_stem_witness:
  "serializable (toy_proof [key0, replicate 31 0 @ [128]]
                   [Some (replicate 32 1), Some (replicate 32 2)]) \<and>
   (\<exists>vp. SerializeProof toy_codec
            (toy_proof [key0, replicate 31 0 @ [128]]
               [Some (replicate 32 1), Some (replicate 32 2)])
          = Inr (vp, [\<lparr>Stem = replicate 31 0,
                        SuffixDiffs = [\<lparr>Suffix = 0, CurrentValue = Some (replicate 32 1)\<rparr>,
                                       \<lparr>Suffix = 128, CurrentValue = Some (replicate 32 2)\<rparr>]\<rparr>]))"
proof -
  let ?p = "toy_proof [key0, replicate 31 0 @ [128]]
              [Some (replicate 32 1), Some (replicate 32 2)]"
  have s: "serializable ?p"
    by (simp add: serializable_def toy_proof_def toy_multiproof_def key0_def len_opt_def)
  have k: "Keys ?p = [replicate 31 0 @ [0], replicate 31 0 @ [128]]"
    by (simp add: toy_proof_def key0_def)
  have v: "Values ?p = [Some (replicate 32 1), Some (replicate 32 2)]"
    by (simp add: toy_proof_def)
  from SerializeProof_groups_by_stem [OF s, of toy_codec]
  obtain vp sd where r: "SerializeProof toy_codec ?p = Inr (vp, sd)"
    and sc: "\<forall>s v1 v2. length s = 31 \<and> length v1 = 32 \<and> length v2 = 32 \<and>
              Keys ?p = [s @ [0], s @ [128]] \<and> Values ?p = [Some v1, Some v2] \<longrightarrow>
              sd = [\<lparr>Stem = s, SuffixDiffs = [\<lparr>Suffix = 0, CurrentValue = Some v1\<rparr>,
                                               \<lparr>Suffix = 128, CurrentValue = Some v2\<rparr>]\<rparr>]"
    by blast
  from sc k v have "sd = [\<lparr>Stem = replicate 31 0,
                    SuffixDiffs = [\<lparr>Suffix = 0, CurrentValue = Some (replicate 32 1)\<rparr>,
                                   \<lparr>Suffix = 128, CurrentValue = Some (replicate 32 2)\<rparr>]\<rparr>]"
    by simp
  with s r show ?thesis by blast
qed

text \<open>
  Three keys, two of one stem and one of another: the first two share a group, the
  third opens the next one.
\<close>

lemma statediff_loop_three_keys:
  "statediff_loop [] [key0, key1, replicate 31 1 @ [0]] [None, None, None]
     = Inr [\<lparr>Stem = replicate 31 0,
             SuffixDiffs = [\<lparr>Suffix = 0, CurrentValue = None\<rparr>,
                            \<lparr>Suffix = 1, CurrentValue = None\<rparr>]\<rparr>,
            \<lparr>Stem = replicate 31 1,
             SuffixDiffs = [\<lparr>Suffix = 0, CurrentValue = None\<rparr>]\<rparr>]"
  by code_simp

section \<open>The round trip\<close>










text \<open>
  What the shared range variable does to several stems: the deserialized proof holds
  the last of the other stems in every position.
\<close>

lemma DeserializeProof_PoaStems:
  "DeserializeProof cd vp statediff = Inr proof \<Longrightarrow>
   PoaStems proof = replicate (length (OtherStems vp)) (last (OtherStems vp))"
  by (auto simp: DeserializeProof_def poaStems_loop_def map_replicate_const
      split: sum.splits option.splits)


section \<open>Properties of the builder\<close>

lemma is_range_order_rev: "is_range_order rev"
  by (simp add: is_range_order_def)

lemma is_range_order_id: "is_range_order id"
  by (simp add: is_range_order_def)

lemma sort_filter_range_order:
  assumes "is_range_order r1" "is_range_order r2"
  shows "sort (filter P (r1 ks)) = sort (filter P (r2 ks))"
proof -
  from assms have "mset (filter P (r1 ks)) = mset (filter P (r2 ks))"
    by (simp add: is_range_order_def)
  then have "mset (sort (filter P (r2 ks))) = mset (filter P (r1 ks))" by simp
  then show ?thesis by (rule properties_for_sort) simp
qed

lemma sorted_commitments_range_order:
  "is_range_order r1 \<Longrightarrow> is_range_order r2 \<Longrightarrow>
   sorted_commitments r1 byPath = sorted_commitments r2 byPath"
  unfolding sorted_commitments_def
  using sort_filter_range_order [of r1 r2 "\<lambda>path. 0 < length path" "map fst byPath"]
  by simp

text \<open>
  C3. The proof that \<^verbatim>\<open>MakeVerkleMultiProof\<close> returns, and hence the wire form that
  \<^verbatim>\<open>SerializeProof\<close> makes of it, do not depend on the order in which the
  \<^verbatim>\<open>range\<close> loop visits the map \<^verbatim>\<open>ByPath\<close>: two runs on the same tree, keys and
  values give the same output whatever orders the runtime chooses.
\<close>

theorem build_and_serialize_deterministic:
  assumes "is_range_order r1" and "is_range_order r2"
  shows "MakeVerkleMultiProof ext r1 root keys keyvals
           = MakeVerkleMultiProof ext r2 root keys keyvals \<and>
         build_and_serialize ext cd r1 root keys keyvals
           = build_and_serialize ext cd r2 root keys keyvals"
proof -
  have eq: "sorted_commitments r1 byPath = sorted_commitments r2 byPath" for byPath :: "(bytes \<times> 'b) list"
    by (rule sorted_commitments_range_order [OF assms])
  have "MakeVerkleMultiProof ext r1 root keys keyvals
          = MakeVerkleMultiProof ext r2 root keys keyvals"
    unfolding MakeVerkleMultiProof_def eq ..
  then show ?thesis by (simp add: build_and_serialize_def)
qed

theorem build_and_serialize_deterministic_witness:
  "is_range_order rev \<and> is_range_order id \<and>
   build_and_serialize toy_externals toy_codec rev () [key1, key0] (toy_keyvals None)
     = build_and_serialize toy_externals toy_codec id () [key1, key0] (toy_keyvals None) \<and>
   \<not> isl (build_and_serialize toy_externals toy_codec rev () [key1, key0] (toy_keyvals None))"
proof -
  have "\<not> isl (build_and_serialize toy_externals toy_codec rev () [key1, key0]
                 (toy_keyvals None))"
    by code_simp
  with build_and_serialize_deterministic [OF is_range_order_rev is_range_order_id,
      of toy_externals "()" "[key1, key0]" "toy_keyvals None" toy_codec]
    is_range_order_rev is_range_order_id
  show ?thesis by simp
qed

lemma sorted_commitments_Inr:
  assumes r: "sorted_commitments range_order byPath = Inr cis"
    and ro: "is_range_order range_order"
    and d: "distinct (map fst byPath)"
  shows "cis = map (\<lambda>path. the (map_of byPath path))
                 (sort (filter (\<lambda>path. path \<noteq> []) (range_order (map fst byPath))))"
    and "sorted_wrt (<) (sort (filter (\<lambda>path. path \<noteq> []) (range_order (map fst byPath))))"
    and "set (sort (filter (\<lambda>path. path \<noteq> []) (range_order (map fst byPath))))
           = {p \<in> fst ` set byPath. p \<noteq> []}"
    and "[] \<in> fst ` set byPath"
    and "length cis = length byPath - 1"
proof -
  let ?ks = "range_order (map fst byPath)"
  let ?paths = "sort (filter (\<lambda>path. path \<noteq> []) ?ks)"
  from ro have m: "mset ?ks = mset (map fst byPath)" by (simp add: is_range_order_def)
  then have s: "set ?ks = fst ` set byPath" by (metis set_mset_mset set_map)
  from m d have dk: "distinct ?ks" by (metis mset_eq_imp_distinct_iff)
  from m have lk: "length ?ks = length byPath" by (metis size_mset length_map)
  from r have ne: "byPath \<noteq> []" and le: "length ?paths \<le> length byPath - 1"
    and c: "cis = map (\<lambda>path. the (map_of byPath path)) ?paths"
    by (auto simp: sorted_commitments_def Let_def split: if_splits)
  show "cis = map (\<lambda>path. the (map_of byPath path)) ?paths" by (rule c)
  from dk show "sorted_wrt (<) ?paths" by (simp add: strict_sorted_iff)
  from s show "set ?paths = {p \<in> fst ` set byPath. p \<noteq> []}" by auto
  have root: "[] \<in> set ?ks"
  proof (rule ccontr)
    assume "[] \<notin> set ?ks"
    then have "filter (\<lambda>path. path \<noteq> []) ?ks = ?ks" by (auto simp: filter_id_conv)
    with le lk ne show False by (cases byPath) simp_all
  qed
  with s show "[] \<in> fst ` set byPath" by simp
  have "length (filter (\<lambda>path. path \<noteq> []) ?ks) + length (filter (\<lambda>path. \<not> path \<noteq> []) ?ks)
          = length ?ks"
    by (rule sum_length_filter_compl)
  moreover have "length (filter (\<lambda>path. \<not> path \<noteq> []) ?ks) = 1"
  proof -
    have "filter (\<lambda>path. \<not> path \<noteq> []) ?ks = filter ((=) []) ?ks"
      by (intro filter_cong) auto
    with dk root show ?thesis by (simp add: distinct_length_filter)
  qed
  ultimately show "length cis = length byPath - 1" using c lk by simp
qed

lemma MakeVerkleMultiProof_Inr:
  assumes "snd (snd (MakeVerkleMultiProof ext range_order root keys keyvals))
             = Inr (proof, cis, zis, yis)"
  shows "sorted_commitments range_order
           (ByPath (fst (GetProofItems ext (Commit ext root) (keylist_sort keys))))
         = Inr (Cs proof)"
  using assms
  by (auto simp: MakeVerkleMultiProof_def GetCommitmentsForMultiproof_def Let_def
      split: if_splits prod.splits sum.splits)

text \<open>
  C5. In every proof that \<^verbatim>\<open>MakeVerkleMultiProof\<close> returns, \<^verbatim>\<open>Cs\<close> lists the
  commitments that \<^verbatim>\<open>ByPath\<close> holds for its non-empty paths, one for each such path,
  in strictly ascending lexicographic order of the paths. The root path is in the map
  and is left out, so that \<^verbatim>\<open>Cs\<close> has one entry less than the map.
\<close>

theorem MakeVerkleMultiProof_Cs_sorted_by_path:
  assumes "snd (snd (MakeVerkleMultiProof ext range_order root keys keyvals))
             = Inr (proof, cis, zis, yis)"
    and "is_range_order range_order"
    and "distinct (map fst (ByPath (fst (GetProofItems ext (Commit ext root)
                                            (keylist_sort keys)))))"
  shows "\<exists>paths.
           Cs proof = map (\<lambda>path. the (map_of (ByPath (fst (GetProofItems ext
                            (Commit ext root) (keylist_sort keys)))) path)) paths \<and>
           sorted_wrt (<) paths \<and>
           set paths = {p \<in> fst ` set (ByPath (fst (GetProofItems ext (Commit ext root)
                                                    (keylist_sort keys)))). p \<noteq> []} \<and>
           [] \<in> fst ` set (ByPath (fst (GetProofItems ext (Commit ext root)
                                          (keylist_sort keys)))) \<and>
           length (Cs proof) = length (ByPath (fst (GetProofItems ext (Commit ext root)
                                                     (keylist_sort keys)))) - 1"
  using sorted_commitments_Inr [OF MakeVerkleMultiProof_Inr [OF assms(1)] assms(2,3)]
  by blast

theorem MakeVerkleMultiProof_Cs_sorted_by_path_witness:
  "snd (snd (MakeVerkleMultiProof toy_externals rev () [key0] (toy_keyvals None)))
     = Inr (toy_proof [key0] [None], [4], [0], [6]) \<and>
   is_range_order rev \<and>
   distinct (map fst (ByPath (fst (GetProofItems toy_externals (Commit toy_externals ())
                                     (keylist_sort [key0]))))) \<and>
   (\<exists>paths. Cs (toy_proof [key0] [None]) = map (\<lambda>path. the (map_of (ByPath (fst (GetProofItems
                 toy_externals (Commit toy_externals ()) (keylist_sort [key0])))) path)) paths \<and>
      sorted_wrt (<) paths \<and> [] \<notin> set paths)"
proof -
  have b: "snd (snd (MakeVerkleMultiProof toy_externals rev () [key0] (toy_keyvals None)))
             = Inr (toy_proof [key0] [None], [4], [0], [6])"
    by code_simp
  have d: "distinct (map fst (ByPath (fst (GetProofItems toy_externals
             (Commit toy_externals ()) (keylist_sort [key0])))))"
    by (simp add: toy_externals_def toy_elements_def)
  from MakeVerkleMultiProof_Cs_sorted_by_path [OF b is_range_order_rev d]
  obtain paths where
    "Cs (toy_proof [key0] [None]) = map (\<lambda>path. the (map_of (ByPath (fst (GetProofItems
       toy_externals (Commit toy_externals ()) (keylist_sort [key0])))) path)) paths"
    "sorted_wrt (<) paths"
    "set paths = {p \<in> fst ` set (ByPath (fst (GetProofItems toy_externals
                     (Commit toy_externals ()) (keylist_sort [key0])))). p \<noteq> []}"
    by blast
  then have "\<exists>paths. Cs (toy_proof [key0] [None]) = map (\<lambda>path. the (map_of (ByPath (fst
       (GetProofItems toy_externals (Commit toy_externals ()) (keylist_sort [key0])))) path))
       paths \<and> sorted_wrt (<) paths \<and> [] \<notin> set paths"
    by blast
  with b d is_range_order_rev show ?thesis by blast
qed

text \<open>
  C9, as amended. \<^verbatim>\<open>MakeVerkleMultiProof\<close> only reads the key-value map, but it
  sorts the caller's key list in place and commits the tree: after the call the list
  holds the same keys in ascending byte order, and it is as before exactly when it was
  sorted already.
\<close>

theorem MakeVerkleMultiProof_sorts_keys_in_place:
  "fst (MakeVerkleMultiProof ext range_order root keys keyvals) = sort keys \<and>
   mset (fst (MakeVerkleMultiProof ext range_order root keys keyvals)) = mset keys \<and>
   (fst (MakeVerkleMultiProof ext range_order root keys keyvals) = keys \<longleftrightarrow> sorted keys) \<and>
   fst (snd (MakeVerkleMultiProof ext range_order root keys keyvals))
     = (if keys = [] then root else Commit ext root)"
proof -
  have k: "fst (MakeVerkleMultiProof ext range_order root keys keyvals) = sort keys"
    by (cases "keys = []")
      (simp_all add: MakeVerkleMultiProof_def GetCommitmentsForMultiproof_def
        keylist_sort_def Let_def split: prod.splits)
  have r: "fst (snd (MakeVerkleMultiProof ext range_order root keys keyvals))
             = (if keys = [] then root else Commit ext root)"
    by (cases "keys = []")
      (simp_all add: MakeVerkleMultiProof_def GetCommitmentsForMultiproof_def
        keylist_sort_def Let_def split: prod.splits)
  have "sort keys = keys \<longleftrightarrow> sorted keys"
    by (metis sorted_sort sorted_sort_id)
  with k r show ?thesis by simp
qed

text \<open>
  C9, as stated, fails: called with the keys \<open>00..01\<close>, \<open>00..00\<close> in this order,
  the builder leaves the caller's list in the other order.
\<close>

theorem MakeVerkleMultiProof_keys_counterexample:
  "fst (MakeVerkleMultiProof toy_externals rev () [key1, key0] (toy_keyvals None))
     = [key0, key1] \<and>
   fst (MakeVerkleMultiProof toy_externals rev () [key1, key0] (toy_keyvals None))
     \<noteq> [key1, key0]"
  by code_simp

section \<open>The empty key list\<close>

text \<open>
  C4. Every call of \<^verbatim>\<open>MakeVerkleMultiProof\<close> with an empty key list fails with the
  error for the missing keys, \<^verbatim>\<open>no key provided for proof\<close>, and produces no
  proof: the test of \<^verbatim>\<open>len(keys)\<close> comes before anything else, so that neither
  the list nor the tree is touched and the backend is not called.
\<close>

theorem MakeVerkleMultiProof_empty_keys:
  "MakeVerkleMultiProof ext range_order root [] keyvals
     = ([], root, Inl (Error ''no key provided for proof''))"
  by (simp add: MakeVerkleMultiProof_def)

text \<open>
  The superseded revision of the builder in the second source file has no error
  result and no such test. With no key its elements are empty, and the call returns
  no proof either: whatever the opening primitive does on empty vectors, the capacity
  \<^verbatim>\<open>len(pe.ByPath)-1\<close> of \<^verbatim>\<open>make\<close> is \<open>-1\<close>.
\<close>

lemma GetCommitmentsForMultiproof_legacy_empty:
  "GetCommitmentsForMultiproof_legacy ext root []
     = (\<lparr>Cis = [], Zis = [], Yis = [], Fis = [], ByPath = []\<rparr>, [], [])"
  by (simp add: GetCommitmentsForMultiproof_legacy_def)

lemma MakeVerkleMultiProof_legacy_empty_keys:
  "\<exists>e. MakeVerkleMultiProof_legacy ext range_order root [] = Inl e"
  by (simp add: MakeVerkleMultiProof_legacy_def GetCommitmentsForMultiproof_legacy_empty
      sorted_commitments_def split: sum.splits)

section \<open>The older binary deserializer\<close>

text \<open>
  C10. Whatever the input, a proof that the older \<^verbatim>\<open>DeserializeProof\<close> returns has
  no keys and no values: the binary format carries none.
\<close>

theorem DeserializeProof_legacy_no_keys_values:
  "DeserializeProof_legacy cd proofSerialized = Inr proof \<Longrightarrow>
   Keys proof = [] \<and> Values proof = []"
  unfolding DeserializeProof_legacy_def
  by (simp split: sum.splits prod.splits) auto

lemma read_uint32_one: "read_uint32 (1 # 0 # 0 # 0 # rest) = Inr (1, rest)"
  by (simp add: read_uint32_def read_full_def)

theorem DeserializeProof_legacy_no_keys_values_witness:
  "DeserializeProof_legacy toy_codec legacy_wire
     = Inr \<lparr>Multipoint = multiproof_Read toy_codec [], ExtStatus = [10], Cs = [7],
            PoaStems = [replicate 31 5], Keys = [], Values = []\<rparr> \<and>
   Keys \<lparr>Multipoint = multiproof_Read toy_codec [], ExtStatus = [10], Cs = [7],
         PoaStems = [replicate 31 5], Keys = [], Values = ([] :: bytes option list)\<rparr> = [] \<and>
   Values \<lparr>Multipoint = multiproof_Read toy_codec [], ExtStatus = [10], Cs = [7],
         PoaStems = [replicate 31 5], Keys = ([] :: bytes list), Values = []\<rparr> = []"
proof -
  have e: "DeserializeProof_legacy toy_codec legacy_wire
     = Inr \<lparr>Multipoint = multiproof_Read toy_codec [], ExtStatus = [10], Cs = [7],
            PoaStems = [replicate 31 5], Keys = [], Values = []\<rparr>"
    unfolding DeserializeProof_legacy_def legacy_wire_def
    by (simp add: read_uint32_one read_full_def toy_codec_def)
  from DeserializeProof_legacy_no_keys_values [OF e] e show ?thesis by simp
qed


section \<open>Hex strings of the JSON forms\<close>

lemma unmarshal_rounds_lengths:
  "unmarshal_rounds cl cr rounds = Inr r \<Longrightarrow>
   \<forall>i \<in> set rounds. length (cl ! i) = 64 \<and> length (cr ! i) = 64"
  by (induction rounds arbitrary: r) (auto split: if_splits sum.splits)

text \<open>
  \<^verbatim>\<open>IPAProof.UnmarshalJSON\<close> and \<^verbatim>\<open>SuffixStateDiff.UnmarshalJSON\<close> return an error
  unless every hex string has 64 characters.
\<close>

lemma IPAProof_UnmarshalJSON_checks_lengths:
  assumes "IPAProof_UnmarshalJSON aux = Inr ipp"
  shows "length (aux_FinalEvaluation aux) = 64 \<and>
         (\<forall>i < 8. length (aux_CL aux ! i) = 64 \<and> length (aux_CR aux ! i) = 64)"
proof -
  from assms have f: "length (aux_FinalEvaluation aux) = 64"
    by (simp add: IPAProof_UnmarshalJSON_def split: if_splits)
  from assms obtain r where "unmarshal_rounds (aux_CL aux) (aux_CR aux) [0..<8] = Inr r"
    by (auto simp: IPAProof_UnmarshalJSON_def split: if_splits sum.splits)
  from unmarshal_rounds_lengths [OF this] f show ?thesis by simp
qed

lemma SuffixStateDiff_UnmarshalJSON_checks_length:
  "SuffixStateDiff_UnmarshalJSON aux = Inr ssd \<Longrightarrow> length (aux_CurrentValue aux) = 64"
  by (simp add: SuffixStateDiff_UnmarshalJSON_def split: if_splits)

text \<open>
  C8 on \<^verbatim>\<open>VerkleProof.UnmarshalJSON\<close>. It has no test of the lengths: hex strings
  of two characters for \<^verbatim>\<open>d\<close>, for a commitment and for another stem are decoded
  and copied into the arrays, which keep zeros behind the one byte.
\<close>

theorem VerkleProof_UnmarshalJSON_accepts_short_hex:
  "VerkleProof_UnmarshalJSON short_hex_aux
     = Inr \<lparr>OtherStems = [171 # replicate 30 0],
            DepthExtensionPresent = [10],
            CommitmentsByPath = [205 # replicate 31 0],
            vp_D = 171 # replicate 31 0,
            vp_IPAProof = None\<rparr> \<and>
   length (aux_D short_hex_aux) \<noteq> 2 * 32"
  by code_simp


section \<open>Exhausted proof-of-absence stems\<close>

lemma present_loop_Inl:
  "present_loop stemPath si ks vs = Inl e \<Longrightarrow> \<exists>p. e = Panic p"
  by (induction stemPath si ks vs rule: present_loop.induct)
    (auto split: if_splits list.splits option.splits)

lemma classify_stem_Inl:
  "classify_stem ext proof path si poas = Inl e \<Longrightarrow> \<exists>p. e = Panic p"
  by (auto simp: classify_stem_def split: if_splits list.splits sum.splits
      dest: present_loop_Inl)

lemma classify_stem_poas:
  assumes "classify_stem ext proof path si poas = Inr (si', poas')"
    and "extStatusAbsentEmpty ext \<noteq> extStatusAbsentOther ext"
  shows "length poas =
         length poas' + (if si_stemType si = extStatusAbsentOther ext then 1 else 0)"
  using assms
  by (auto simp: classify_stem_def split: if_splits list.splits sum.splits)

lemma classify_loop_exhausted:
  assumes "extStatusAbsentEmpty ext \<noteq> extStatusAbsentOther ext"
  shows "length poas < absent_other_count ext extStatus \<Longrightarrow>
         \<exists>p. classify_loop ext proof stems stemIndex info paths poas extStatus
                = Inl (Panic p)"
proof (induction extStatus arbitrary: stemIndex info paths poas)
  case Nil
  then show ?case by (simp add: absent_other_count_def)
next
  case (Cons es rest)
  let ?si = "\<lparr>si_depth = drop_bit 3 es, si_stemType = es AND 3, has_c1 = False,
              has_c2 = False, si_values = None, si_stem = None\<rparr>"
  let ?path = "take (unat (drop_bit 3 es)) (stems ! stemIndex)"
  show ?case
  proof (cases "length stems \<le> stemIndex")
    case True
    then show ?thesis by (simp add: Let_def)
  next
    case False
    show ?thesis
    proof (cases "classify_stem ext proof ?path ?si poas")
      case (Inl e)
      with classify_stem_Inl [OF Inl] False show ?thesis by (auto simp: Let_def)
    next
      case (Inr r)
      then obtain si' poas' where r: "r = (si', poas')" by (cases r)
      from classify_stem_poas [OF Inr [unfolded r] assms] Cons.prems
      have "length poas' < absent_other_count ext rest"
        by (auto simp: absent_other_count_def split: if_splits)
      from Cons.IH [OF this, of "skip_stems stems (unat (drop_bit 3 es)) ?path stemIndex"
          "map_store ?path si' info" "paths @ [?path]"]
      show ?thesis using False Inr r by (simp add: Let_def)
    qed
  qed
qed

lemma collect_stems_Inl:
  "collect_stems stems ks = Inl e \<Longrightarrow> \<exists>p. e = Panic p"
  by (induction stems ks rule: collect_stems.induct) (auto split: if_splits)

text \<open>
  C2, as amended. \<^verbatim>\<open>TreeFromProof\<close> tests nothing in its classification loop. For
  every proof whose \<^verbatim>\<open>ExtStatus\<close> has more entries of the type of another stem than
  \<^verbatim>\<open>PoaStems\<close> has stems, the call returns no error value: it ends in a run-time
  panic, at \<^verbatim>\<open>poas[0]\<close> on the exhausted list or at an unchecked index before it.
\<close>

theorem TreeFromProof_poa_stems_exhausted:
  assumes "extStatusAbsentEmpty ext \<noteq> extStatusAbsentOther ext"
    and "length (PoaStems proof) < absent_other_count ext (ExtStatus proof)"
  shows "\<exists>p. TreeFromProof ext proof rootC = Inl (Panic p)"
proof (cases "collect_stems [] (Keys proof)")
  case (Inl e)
  with collect_stems_Inl [OF Inl] show ?thesis by (auto simp: TreeFromProof_def)
next
  case (Inr stems)
  from classify_loop_exhausted [OF assms, of "proof" stems 0 "[]" "[]"]
  obtain p where
    "classify_loop ext proof stems 0 [] [] (PoaStems proof) (ExtStatus proof) = Inl (Panic p)"
    by blast
  with Inr show ?thesis by (simp add: TreeFromProof_def)
qed

theorem TreeFromProof_poa_stems_exhausted_witness:
  "extStatusAbsentEmpty toy_externals \<noteq> extStatusAbsentOther toy_externals \<and>
   length (PoaStems poa_exhausted_proof)
     < absent_other_count toy_externals (ExtStatus poa_exhausted_proof) \<and>
   (\<exists>p. TreeFromProof toy_externals poa_exhausted_proof 4 = Inl (Panic p))"
proof -
  have a: "extStatusAbsentEmpty toy_externals \<noteq> extStatusAbsentOther toy_externals"
    by (simp add: toy_externals_def)
  have b: "length (PoaStems poa_exhausted_proof)
             < absent_other_count toy_externals (ExtStatus poa_exhausted_proof)"
    by code_simp
  from TreeFromProof_poa_stems_exhausted [OF a b, of 4] a b show ?thesis by blast
qed

text \<open>
  C2, as stated, fails: one extension status of the type of another stem and no
  proof-of-absence stem make \<^verbatim>\<open>poas[0]\<close> an index out of range, which is a panic
  and not a returned error.
\<close>

theorem TreeFromProof_poa_stems_counterexample:
  "absent_other_count toy_externals (ExtStatus poa_exhausted_proof) = 1 \<and>
   PoaStems poa_exhausted_proof = [] \<and>
   TreeFromProof toy_externals poa_exhausted_proof 4 = Inl (Panic IndexOutOfRange)"
  by code_simp

end
